theory Spec2Isabelle
  imports Main
begin

section \<open>The channel reconciler of the IRC relay (reconciler.go)\<close>

text \<open>
  The reconciler keeps one \<open>channelState\<close> per IRC channel, each with a goroutine
  (\<open>Monitor\<close>) that sends JOIN requests until the channel is joined.  The model is an
  interleaving one: the Go heap is an explicit store (signal channels are addresses with a
  closed flag, channel states are cells of a list indexed by their pointer), every
  goroutine is a control state that advances by atomic steps, and the functions called
  under the registry mutex are atomic state transformers.
\<close>

subsection \<open>Constants\<close>

definition ircJoinWaitSecs :: nat where
  "ircJoinWaitSecs = 10"

definition ircJoinMaxBackoffSecs :: nat where
  "ircJoinMaxBackoffSecs = 300"

definition ircJoinBackoffResetSecs :: nat where
  "ircJoinBackoffResetSecs = 1800"

text \<open>Go's \<open>time.Second\<close>: a \<open>time.Duration\<close> counts nanoseconds.\<close>

definition time_Second :: nat where
  "time_Second = 1000000000"

subsection \<open>Data\<close>

text \<open>\<open>IRCChannel\<close> is declared in the configuration code; the reconciler reads the
  two fields \<open>Name\<close> and \<open>Password\<close>.\<close>

record IRCChannel =
  Name :: string
  Password :: string

record Delayer =
  maxDelay :: nat
  resetAfter :: nat
  initialDelay :: nat

text \<open>Modelled from the spec: \<open>DelayerMaker.NewDelayer\<close> lives in the backoff code, which
  is not part of reconciler.go.  The spec gives its contract: a factory producing, per
  channel, a stateful delayer parameterized by (maxDelay, resetAfter, initialDelay).  The
  first two arguments count seconds, the third is a duration.\<close>

definition NewDelayer :: "nat \<Rightarrow> nat \<Rightarrow> nat \<Rightarrow> Delayer" where
  "NewDelayer mx rs ini = \<lparr>maxDelay = mx, resetAfter = rs, initialDelay = ini\<rparr>"

text \<open>
  The part of the Go heap that holds channels made by \<open>make(chan ...)\<close>: the set of
  closed ones and the next unused address.  Closing a closed channel panics, and an
  unrecovered panic ends the process: \<open>crashed\<close> records it.
\<close>

record chans =
  closed :: "nat set"
  nextChan :: nat
  crashed :: bool

definition make_chan :: "chans \<Rightarrow> nat \<times> chans" where
  "make_chan h = (nextChan h, h\<lparr>nextChan := Suc (nextChan h)\<rparr>)"

definition close_chan :: "nat \<Rightarrow> chans \<Rightarrow> chans" where
  "close_chan a h =
     (if a \<in> closed h then h\<lparr>crashed := True\<rparr>
      else h\<lparr>closed := insert a (closed h)\<rparr>)"

text \<open>
  A \<open>context.Context\<close> made by \<open>context.WithCancel(parent)\<close> in \<open>Start\<close>: its own
  cancel cell and the parent it was derived from.  Parents belong to the caller; they are
  named by a number.  \<open>Err()\<close> is \<open>nil\<close> (\<open>None\<close>), \<open>Canceled\<close> or
  \<open>DeadlineExceeded\<close>.
\<close>

datatype ctx_err = Canceled | DeadlineExceeded

record scope =
  own :: nat
  parent :: nat

text \<open>
  The control state of the goroutine running \<open>Monitor\<close>, one constructor per point
  where it reads shared state or blocks:
  \<^item> \<open>NotStarted\<close>: the struct exists, \<open>go c.Monitor(...)\<close> has not run;
  \<^item> \<open>LoopHead\<close>: about to evaluate \<open>ctx.Err() != context.Canceled\<close> and \<open>joined()\<close>;
  \<^item> \<open>InDelay\<close>: in \<open>join\<close>, blocked in \<open>c.delayer.DelayContext(ctx)\<close>;
  \<^item> \<open>JoinSent\<close>: \<open>c.client.Join\<close> was called, the \<open>select\<close> of \<open>join\<close> not yet entered;
  \<^item> \<open>InJoinWait a d\<close>: blocked in the \<open>select\<close> of \<open>join\<close> on the channel \<open>a\<close> that
    \<open>c.JoinDone()\<close> returned, on \<open>time.After(d)\<close> and on \<open>ctx.Done()\<close>;
  \<^item> \<open>BeforeUnsetWait\<close>: \<open>joined()\<close> was true, \<open>monitorJoinUnset\<close> not yet blocked;
  \<^item> \<open>InUnsetWait\<close>: blocked in the \<open>select\<close> of \<open>monitorJoinUnset\<close>;
  \<^item> \<open>Exited\<close>: \<open>Monitor\<close> returned (the deferred \<open>wg.Done()\<close> ran);
  \<^item> \<open>Panicked\<close>: nil dereference (the deferred \<open>wg.Done()\<close> ran, the process dies).
\<close>

datatype pc =
    NotStarted
  | LoopHead
  | InDelay
  | JoinSent
  | InJoinWait nat nat
  | BeforeUnsetWait
  | InUnsetWait
  | Exited
  | Panicked

text \<open>
  \<open>channelState\<close>.  The mutex \<open>mu\<close> is what makes the methods atomic; the shared
  \<open>client\<close> is kept in the world.  \<open>joinUnsetSignal\<close> is an unbuffered channel whose
  only receiver is this state's own \<open>Monitor\<close> goroutine, so the goroutine is kept with
  the state: \<open>pc\<close> is its control state and \<open>ctx\<close> the context it was started with
  (\<open>None\<close> is Go's nil interface).
\<close>

record channelState =
  channel :: IRCChannel
  delayer :: Delayer
  joinDone :: nat
  joined :: bool
  joinUnsetSignal :: nat
  pc :: pc
  ctx :: "scope option"

subsection \<open>channelState\<close>

definition newChannelState :: "IRCChannel \<Rightarrow> chans \<Rightarrow> channelState \<times> chans" where
  "newChannelState ch h =
     (let d = NewDelayer ircJoinMaxBackoffSecs ircJoinBackoffResetSecs time_Second;
          (a, h1) = make_chan h;
          (b, h2) = make_chan h1
      in (\<lparr>channel = ch, delayer = d, joinDone = a, joined = False,
           joinUnsetSignal = b, pc = NotStarted, ctx = None\<rparr>, h2))"

definition JoinDone :: "channelState \<Rightarrow> nat" where
  "JoinDone c = joinDone c"

definition SetJoined :: "channelState \<Rightarrow> chans \<Rightarrow> channelState \<times> chans" where
  "SetJoined c h =
     (if joined c = True then (c, h)
      else (c\<lparr>joined := True\<rparr>, close_chan (joinDone c) h))"

text \<open>The non-blocking send on the unbuffered \<open>joinUnsetSignal\<close> goes through exactly
  when the receiver is blocked in \<open>monitorJoinUnset\<close>, whose \<open>select\<close> then returns.\<close>

definition UnsetJoined :: "channelState \<Rightarrow> chans \<Rightarrow> channelState \<times> chans" where
  "UnsetJoined c h =
     (if joined c = False then (c, h)
      else (let (a, h1) = make_chan h;
                c1 = c\<lparr>joined := False, joinDone := a\<rparr>
            in (if pc c1 = InUnsetWait then c1\<lparr>pc := LoopHead\<rparr> else c1, h1)))"

text \<open>A run of calls on one channel state, as the event handlers make them.\<close>

datatype transition = DoSetJoined | DoUnsetJoined

fun transit :: "transition \<Rightarrow> channelState \<times> chans \<Rightarrow> channelState \<times> chans" where
  "transit DoSetJoined (c, h) = SetJoined c h"
| "transit DoUnsetJoined (c, h) = UnsetJoined c h"

fun transits :: "transition list \<Rightarrow> channelState \<times> chans \<Rightarrow> channelState \<times> chans" where
  "transits [] x = x"
| "transits (t # ts) x = transits ts (transit t x)"

text \<open>What holds of a channel state and the heap it lives in: its signal was made by
  \<open>make\<close>, only made channels are closed, the signal is closed exactly while
  \<open>joined\<close> is set, and no \<open>close\<close> has panicked.\<close>

definition sig_ok :: "channelState \<Rightarrow> chans \<Rightarrow> bool" where
  "sig_ok c h \<longleftrightarrow>
     joinDone c < nextChan h \<and> (\<forall>a \<in> closed h. a < nextChan h) \<and>
     (joined c \<longleftrightarrow> joinDone c \<in> closed h) \<and> \<not> crashed h"

subsection \<open>The world: reconciler, client, heap and contexts\<close>

text \<open>
  The fields of \<open>ChannelReconciler\<close> (\<open>channels\<close> maps a name to a pointer, that is an
  index into \<open>loops\<close>; \<open>stopCtxCancel\<close> is the cancel function, named by the context it
  cancels; \<open>stopWg\<close> is the counter of the wait group), then what the client shows of
  itself (\<open>nick\<close> is \<open>client.Me().Nick\<close>, \<open>sent\<close> the \<open>client.Join(name, password)\<close>
  calls made so far), then the heap (\<open>loops\<close>: every \<open>channelState\<close> ever allocated,
  \<open>chn\<close>: the signal channels) and the contexts (\<open>cancelled\<close>: the cancel cells that
  were set, \<open>parentErr\<close>: what \<open>Err()\<close> of each parent context returns now).
\<close>

record world =
  preJoinChannels :: "IRCChannel list"
  channels :: "string \<rightharpoonup> nat"
  stopCtx :: "scope option"
  stopCtxCancel :: "scope option"
  stopWg :: int
  nick :: string
  sent :: "(string \<times> string) list"
  loops :: "channelState list"
  chn :: chans
  cancelled :: "nat set"
  nextCtx :: nat
  parentErr :: "nat \<Rightarrow> ctx_err option"

text \<open>
  \<open>ctx.Err()\<close> of a context derived by \<open>WithCancel\<close>: \<open>Canceled\<close> once its cancel function
  ran while it was live, otherwise whatever ended its parent (a child takes over the
  parent's error), otherwise nil.  The cancel function does nothing on a context that is
  already done.
\<close>

definition ctx_Err :: "world \<Rightarrow> scope \<Rightarrow> ctx_err option" where
  "ctx_Err w x = (if own x \<in> cancelled w then Some Canceled else parentErr w (parent x))"

definition cancel :: "scope \<Rightarrow> world \<Rightarrow> world" where
  "cancel x w =
     (if ctx_Err w x = None then w\<lparr>cancelled := insert (own x) (cancelled w)\<rparr> else w)"

text \<open>The caller's side: a parent context ends, by a cancel or by its deadline.\<close>

definition parent_done :: "nat \<Rightarrow> ctx_err \<Rightarrow> world \<Rightarrow> world" where
  "parent_done k e w =
     (if parentErr w k = None then w\<lparr>parentErr := (parentErr w)(k := Some e)\<rparr> else w)"

definition NewChannelReconciler ::
    "IRCChannel list \<Rightarrow> string \<Rightarrow> (nat \<Rightarrow> ctx_err option) \<Rightarrow> world" where
  "NewChannelReconciler config me pe =
     \<lparr>preJoinChannels = config, channels = Map.empty, stopCtx = None,
      stopCtxCancel = None, stopWg = 0, nick = me, sent = [], loops = [],
      chn = \<lparr>closed = {}, nextChan = 0, crashed = False\<rparr>, cancelled = {},
      nextCtx = 0, parentErr = pe\<rparr>"

subsection \<open>The Monitor goroutine\<close>

text \<open>
  What can make a goroutine advance: \<open>Run\<close> (it is scheduled and is not blocked),
  \<open>DelayElapsed\<close> and \<open>DelayCancelled\<close> (\<open>DelayContext\<close> returns true, or false),
  \<open>SignalClosed\<close>, \<open>TimerFired t\<close> (\<open>t\<close> nanoseconds after the timer was made) and
  \<open>CtxDone\<close> (the cases of the two \<open>select\<close> statements).
\<close>

datatype event = Run | DelayElapsed | DelayCancelled | SignalClosed | TimerFired nat | CtxDone

fun timer_fired :: "event \<Rightarrow> nat \<Rightarrow> bool" where
  "timer_fired (TimerFired t) d = (d \<le> t)"
| "timer_fired _ d = False"

definition set_pc :: "nat \<Rightarrow> pc \<Rightarrow> world \<Rightarrow> world" where
  "set_pc p v w = w\<lparr>loops := (loops w)[p := (loops w ! p)\<lparr>pc := v\<rparr>]\<rparr>"

definition wg_Add :: "world \<Rightarrow> world" where
  "wg_Add w = w\<lparr>stopWg := stopWg w + 1\<rparr>"

definition wg_Done :: "world \<Rightarrow> world" where
  "wg_Done w = w\<lparr>stopWg := stopWg w - 1\<rparr>"

text \<open>Modelled from the spec: \<open>client.Join\<close> belongs to the IRC client library,
  which is not part of reconciler.go.  The spec: a fire-and-forget request for a channel and
  password pair, with no return value awaited by the loop.  So the call records the request
  and returns at once.\<close>

definition client_Join :: "string \<Rightarrow> string \<Rightarrow> world \<Rightarrow> world" where
  "client_Join n pw w = w\<lparr>sent := sent w @ [(n, pw)]\<rparr>"

text \<open>Modelled from the spec: \<open>Delayer.DelayContext\<close> is not part of reconciler.go.
  The spec: it waits out the current step, cancellable, returning whether it completed or
  was cancelled.  So it returns true when the delay has elapsed and may return false only
  once the context is done.\<close>

definition DelayContext_returns :: "world \<Rightarrow> scope \<Rightarrow> event \<Rightarrow> bool option" where
  "DelayContext_returns w x ev =
     (if ev = DelayElapsed then Some True
      else if ev = DelayCancelled \<and> ctx_Err w x \<noteq> None then Some False
      else None)"

text \<open>
  One atomic step of the goroutine of the channel state at pointer \<open>p\<close>; \<open>None\<close> when
  the event cannot happen there (the goroutine stays blocked, or is gone).  A goroutine
  started with the nil context panics at its first step, the call \<open>ctx.Err()\<close>; no other
  control state is reached with a nil context.
\<close>

definition monitor_step :: "nat \<Rightarrow> event \<Rightarrow> world \<Rightarrow> world option" where
  "monitor_step p ev w =
     (if length (loops w) \<le> p then None
      else let c = loops w ! p in
        case pc c of
          NotStarted \<Rightarrow> None
        | Exited \<Rightarrow> None
        | Panicked \<Rightarrow> None
        | _ \<Rightarrow>
         (case ctx c of
            None \<Rightarrow> if ev = Run then Some (wg_Done (set_pc p Panicked w)) else None
          | Some x \<Rightarrow>
             (case pc c of
                LoopHead \<Rightarrow>
                  if ev \<noteq> Run then None
                  else if ctx_Err w x = Some Canceled then Some (wg_Done (set_pc p Exited w))
                  else if \<not> joined c then Some (set_pc p InDelay w)
                  else Some (set_pc p BeforeUnsetWait w)
              | InDelay \<Rightarrow>
                 (case DelayContext_returns w x ev of
                    None \<Rightarrow> None
                  | Some False \<Rightarrow> Some (set_pc p LoopHead w)
                  | Some True \<Rightarrow>
                      Some (set_pc p JoinSent
                        (client_Join (Name (channel c)) (Password (channel c)) w)))
              | JoinSent \<Rightarrow>
                  if ev = Run
                  then Some (set_pc p (InJoinWait (JoinDone c) (ircJoinWaitSecs * time_Second)) w)
                  else None
              | InJoinWait a d \<Rightarrow>
                  if ev = SignalClosed \<and> a \<in> closed (chn w) then Some (set_pc p LoopHead w)
                  else if timer_fired ev d then Some (set_pc p LoopHead w)
                  else if ev = CtxDone \<and> ctx_Err w x \<noteq> None then Some (set_pc p LoopHead w)
                  else None
              | BeforeUnsetWait \<Rightarrow>
                  if ev = Run then Some (set_pc p InUnsetWait w) else None
              | InUnsetWait \<Rightarrow>
                  if ev = CtxDone \<and> ctx_Err w x \<noteq> None then Some (set_pc p LoopHead w)
                  else None
              | _ \<Rightarrow> None)))"

subsection \<open>ChannelReconciler\<close>

definition HandleJoin :: "string \<Rightarrow> string \<Rightarrow> world \<Rightarrow> world" where
  "HandleJoin n chname w =
     (if n \<noteq> nick w then w
      else case channels w chname of
        None \<Rightarrow> w
      | Some p \<Rightarrow>
          (let (c, h) = SetJoined (loops w ! p) (chn w)
           in w\<lparr>loops := (loops w)[p := c], chn := h\<rparr>))"

definition HandleKick :: "string \<Rightarrow> string \<Rightarrow> world \<Rightarrow> world" where
  "HandleKick n chname w =
     (if n \<noteq> nick w then w
      else case channels w chname of
        None \<Rightarrow> w
      | Some p \<Rightarrow>
          (let (c, h) = UnsetJoined (loops w ! p) (chn w)
           in w\<lparr>loops := (loops w)[p := c], chn := h\<rparr>))"

text \<open>\<open>unsafeAddChannel\<close> returns the pointer to the new state; \<open>go c.Monitor(r.stopCtx,
  &r.stopWg)\<close> evaluates \<open>r.stopCtx\<close> now and leaves the goroutine at its first step.\<close>

definition unsafeAddChannel :: "IRCChannel \<Rightarrow> world \<Rightarrow> nat \<times> world" where
  "unsafeAddChannel ch w =
     (let (c, h) = newChannelState ch (chn w);
          p = length (loops w);
          w1 = wg_Add (w\<lparr>chn := h\<rparr>);
          w2 = w1\<lparr>loops := loops w1 @ [c\<lparr>pc := LoopHead, ctx := stopCtx w1\<rparr>]\<rparr>
      in (p, w2\<lparr>channels := (channels w2)(Name ch \<mapsto> p)\<rparr>))"

text \<open>The result of \<open>JoinChannel\<close> is the pair it returns (the second component
  \<open>None\<close> for nil) and the new world.\<close>

definition JoinChannel :: "string \<Rightarrow> world \<Rightarrow> (bool \<times> nat option) \<times> world" where
  "JoinChannel chname w =
     (let (p, w1) = (case channels w chname of
                       Some p \<Rightarrow> (p, w)
                     | None \<Rightarrow> unsafeAddChannel \<lparr>Name = chname, Password = []\<rparr> w);
          c = loops w1 ! p
      in if JoinDone c \<in> closed (chn w1) then ((True, None), w1)
         else ((False, Some (JoinDone c)), w1))"

text \<open>
  \<open>r.stopWg.Wait()\<close> returns as soon as the counter is zero.  While it blocks, the
  registry mutex is held, so of the reconciler only the goroutines move: the schedule
  lists which one takes which step (an entry that cannot happen is passed over).  A parent
  context that ends meanwhile changes nothing, the context being done already.  The result
  says whether \<open>Wait\<close> has returned when the schedule is used up.
\<close>

fun wg_Wait :: "(nat \<times> event) list \<Rightarrow> world \<Rightarrow> bool \<times> world" where
  "wg_Wait [] w = (stopWg w = 0, w)"
| "wg_Wait ((p, ev) # sched) w =
     (if stopWg w = 0 then (True, w)
      else wg_Wait sched (case monitor_step p ev w of None \<Rightarrow> w | Some w1 \<Rightarrow> w1))"

text \<open>\<open>None\<close>: the call has not returned under this schedule.\<close>

definition unsafeStop :: "(nat \<times> event) list \<Rightarrow> world \<Rightarrow> world option" where
  "unsafeStop sched w =
     (case stopCtxCancel w of
        None \<Rightarrow> Some w
      | Some x \<Rightarrow>
         (case wg_Wait sched (cancel x w) of
            (True, w1) \<Rightarrow> Some (w1\<lparr>channels := Map.empty\<rparr>)
          | (False, w1) \<Rightarrow> None))"

definition Stop :: "(nat \<times> event) list \<Rightarrow> world \<Rightarrow> world option" where
  "Stop sched w = unsafeStop sched w"

definition WithCancel :: "nat \<Rightarrow> world \<Rightarrow> scope \<times> world" where
  "WithCancel par w = (\<lparr>own = nextCtx w, parent = par\<rparr>, w\<lparr>nextCtx := Suc (nextCtx w)\<rparr>)"

fun addChannels :: "IRCChannel list \<Rightarrow> world \<Rightarrow> world" where
  "addChannels [] w = w"
| "addChannels (ch # chs) w = addChannels chs (snd (unsafeAddChannel ch w))"

definition Start :: "(nat \<times> event) list \<Rightarrow> nat \<Rightarrow> world \<Rightarrow> world option" where
  "Start sched par w =
     (case unsafeStop sched w of
        None \<Rightarrow> None
      | Some w1 \<Rightarrow>
          (let (x, w2) = WithCancel par w1;
               w3 = w2\<lparr>stopCtx := Some x, stopCtxCancel := Some x\<rparr>
           in Some (addChannels (preJoinChannels w3) w3)))"

subsection \<open>Runs\<close>

text \<open>A goroutine taking the given steps in a row, nothing else moving in between.\<close>

fun monitor_steps :: "nat \<Rightarrow> event list \<Rightarrow> world \<Rightarrow> world option" where
  "monitor_steps p [] w = Some w"
| "monitor_steps p (ev # evs) w =
     (case monitor_step p ev w of None \<Rightarrow> None | Some w1 \<Rightarrow> monitor_steps p evs w1)"

text \<open>What has happened when a blocked \<open>Stop\<close> or \<open>Start\<close> has used up its schedule.\<close>

definition stop_progress :: "(nat \<times> event) list \<Rightarrow> world \<Rightarrow> world" where
  "stop_progress sched w =
     (case stopCtxCancel w of None \<Rightarrow> w | Some x \<Rightarrow> snd (wg_Wait sched (cancel x w)))"

text \<open>
  Everything that can happen to a reconciler: the calls of its public surface, the
  handlers the client invokes, a step of one of the goroutines, and a parent context
  coming to its end.
\<close>

datatype action =
    CallStart "(nat \<times> event) list" nat
  | CallStop "(nat \<times> event) list"
  | CallJoinChannel string
  | CallHandleJoin string string
  | CallHandleKick string string
  | Step nat event
  | ParentDone nat ctx_err

fun exec :: "action \<Rightarrow> world \<Rightarrow> world" where
  "exec (CallStart sched par) w =
     (case Start sched par w of Some w1 \<Rightarrow> w1 | None \<Rightarrow> stop_progress sched w)"
| "exec (CallStop sched) w =
     (case Stop sched w of Some w1 \<Rightarrow> w1 | None \<Rightarrow> stop_progress sched w)"
| "exec (CallJoinChannel n) w = snd (JoinChannel n w)"
| "exec (CallHandleJoin n chname) w = HandleJoin n chname w"
| "exec (CallHandleKick n chname) w = HandleKick n chname w"
| "exec (Step p ev) w = (case monitor_step p ev w of Some w1 \<Rightarrow> w1 | None \<Rightarrow> w)"
| "exec (ParentDone k e) w = parent_done k e w"

fun execs :: "action list \<Rightarrow> world \<Rightarrow> world" where
  "execs [] w = w"
| "execs (a # as) w = execs as (exec a w)"

text \<open>A schedule of goroutine steps, as actions.\<close>

fun as_steps :: "(nat \<times> event) list \<Rightarrow> action list" where
  "as_steps [] = []"
| "as_steps ((p, ev) # sched) = Step p ev # as_steps sched"

fun is_CallStart :: "action \<Rightarrow> bool" where
  "is_CallStart (CallStart sched par) = True"
| "is_CallStart _ = False"

fun is_CallStop :: "action \<Rightarrow> bool" where
  "is_CallStop (CallStop sched) = True"
| "is_CallStop _ = False"

subsection \<open>Invariants\<close>

text \<open>A goroutine that has been started and has neither returned nor panicked.\<close>

fun running :: "pc \<Rightarrow> bool" where
  "running NotStarted = False"
| "running Exited = False"
| "running Panicked = False"
| "running _ = True"

text \<open>An upper bound on the steps a goroutine still takes once its context is
  cancelled.\<close>

fun steps_left :: "pc \<Rightarrow> nat" where
  "steps_left InDelay = 4"
| "steps_left JoinSent = 3"
| "steps_left (InJoinWait a d) = 2"
| "steps_left BeforeUnsetWait = 3"
| "steps_left InUnsetWait = 2"
| "steps_left LoopHead = 1"
| "steps_left _ = 0"

text \<open>Every pointer in the registry points into the heap, at a channel state of the name
  it is registered under.\<close>

definition registry_ok :: "world \<Rightarrow> bool" where
  "registry_ok w \<longleftrightarrow>
     (\<forall>n p. channels w n = Some p \<longrightarrow>
        p < length (loops w) \<and> Name (channel (loops w ! p)) = n)"

text \<open>Every channel state has a signal of its own, closed exactly while it is joined.\<close>

definition signals_ok :: "world \<Rightarrow> bool" where
  "signals_ok w \<longleftrightarrow>
     (\<forall>c \<in> set (loops w). sig_ok c (chn w)) \<and>
     (\<forall>a \<in> closed (chn w). a < nextChan (chn w)) \<and> \<not> crashed (chn w) \<and>
     distinct (map joinDone (loops w))"

text \<open>
  The wait group counts the goroutines that run; a goroutine has returned only under a
  context whose error is \<open>Canceled\<close>, has panicked only without a context, and while it
  runs its context is the nil one (then it is at its first step) or the current one.
\<close>

definition task_ok :: "world \<Rightarrow> channelState \<Rightarrow> bool" where
  "task_ok w c \<longleftrightarrow>
     pc c \<noteq> NotStarted \<and>
     (pc c = Exited \<longrightarrow>
        (case ctx c of None \<Rightarrow> False | Some x \<Rightarrow> ctx_Err w x = Some Canceled)) \<and>
     (pc c = Panicked \<longrightarrow> ctx c = None) \<and>
     (ctx c = None \<longrightarrow> pc c = LoopHead \<or> pc c = Panicked) \<and>
     (running (pc c) \<longrightarrow> ctx c = None \<or> ctx c = stopCtx w)"

definition tasks_ok :: "world \<Rightarrow> bool" where
  "tasks_ok w \<longleftrightarrow>
     stopWg w = int (length (filter (\<lambda>c. running (pc c)) (loops w))) \<and>
     (\<forall>c \<in> set (loops w). task_ok w c) \<and>
     stopCtxCancel w = stopCtx w"

definition scopes_ok :: "world \<Rightarrow> bool" where
  "scopes_ok w \<longleftrightarrow>
     (\<forall>k \<in> cancelled w. k < nextCtx w) \<and>
     (\<forall>x. stopCtx w = Some x \<longrightarrow> own x < nextCtx w)"

definition world_ok :: "world \<Rightarrow> bool" where
  "world_ok w \<longleftrightarrow> registry_ok w \<and> signals_ok w \<and> tasks_ok w \<and> scopes_ok w"

text \<open>
  An unrecovered panic of a goroutine ends the whole Go process, and so does the \<open>close\<close>
  of a closed channel: the process is alive as long as neither has happened.
\<close>

definition alive :: "world \<Rightarrow> bool" where
  "alive w \<longleftrightarrow> list_all (\<lambda>c. pc c \<noteq> Panicked) (loops w) \<and> \<not> crashed (chn w)"

text \<open>The schedule that lets every goroutine of the first \<open>n\<close> channel states see the
  end of its context, as often as it may need to.\<close>

definition drain :: "nat \<Rightarrow> (nat \<times> event) list" where
  "drain p = [(p, DelayCancelled), (p, Run), (p, Run), (p, CtxDone), (p, Run)]"

fun drain_all :: "nat \<Rightarrow> (nat \<times> event) list" where
  "drain_all 0 = []"
| "drain_all (Suc n) = drain_all n @ drain n"

subsection \<open>Example worlds\<close>

definition heap0 :: chans where
  "heap0 = \<lparr>closed = {}, nextChan = 0, crashed = False\<rparr>"

definition ops_channel :: IRCChannel where
  "ops_channel = \<lparr>Name = ''#ops'', Password = ''secret''\<rparr>"

definition joined_channel :: channelState where
  "joined_channel =
     fst (SetJoined (fst (newChannelState ops_channel heap0))
                    (snd (newChannelState ops_channel heap0)))"

definition joined_heap :: chans where
  "joined_heap =
     snd (SetJoined (fst (newChannelState ops_channel heap0))
                    (snd (newChannelState ops_channel heap0)))"

text \<open>A reconciler configured with one channel, whose client is called relay and whose
  callers' contexts are all live; then the same after \<open>Start\<close> under parent 0.\<close>

definition fresh_world :: world where
  "fresh_world = NewChannelReconciler [ops_channel] ''relay'' (\<lambda>k. None)"

definition started_world :: world where
  "started_world = exec (CallStart [] 0) fresh_world"

text \<open>The started reconciler after the deadline of its parent context passed, after a
  JOIN of its channel was confirmed, after \<open>JoinChannel\<close> for a second channel, after
  its parent context was cancelled during the delay, after \<open>Stop\<close>, after a second
  \<open>Start\<close>, and after \<open>Stop\<close> and \<open>JoinChannel\<close>; and the fresh one after
  \<open>JoinChannel\<close>.\<close>

definition deadline_world :: world where
  "deadline_world = exec (ParentDone 0 DeadlineExceeded) started_world"

definition joined_world :: world where
  "joined_world = exec (CallHandleJoin ''relay'' ''#ops'') started_world"

definition two_world :: world where
  "two_world = exec (CallJoinChannel ''#dev'') started_world"

definition cancelled_in_delay_world :: world where
  "cancelled_in_delay_world = execs [Step 0 Run, ParentDone 0 Canceled] started_world"

definition stopped_world :: world where
  "stopped_world = exec (CallStop (drain_all 1)) started_world"


definition rejoined_world :: world where
  "rejoined_world =
     execs [CallStop (drain_all 1), CallJoinChannel ''#dev'', Step 1 Run] started_world"

definition unstarted_world :: world where
  "unstarted_world = exec (CallJoinChannel ''#dev'') fresh_world"




section \<open>Signals of one channel state\<close>


lemma sig_ok_SetJoined: "sig_ok c h \<Longrightarrow> SetJoined c h = (c1, h1) \<Longrightarrow> sig_ok c1 h1"
  by (auto simp: sig_ok_def SetJoined_def close_chan_def split: if_splits)

lemma sig_ok_UnsetJoined: "sig_ok c h \<Longrightarrow> UnsetJoined c h = (c1, h1) \<Longrightarrow> sig_ok c1 h1"
  by (auto simp: sig_ok_def UnsetJoined_def make_chan_def Let_def less_Suc_eq split: if_splits)

lemma sig_ok_transits: "sig_ok (fst x) (snd x) \<Longrightarrow> sig_ok (fst (transits ts x)) (snd (transits ts x))"
proof (induction ts arbitrary: x)
  case Nil
  then show ?case by simp
next
  case (Cons t ts)
  obtain c h where x: "x = (c, h)" by (cases x)
  obtain c1 h1 where y: "transit t x = (c1, h1)" by (cases "transit t x")
  have "sig_ok c1 h1"
    using Cons.prems x y by (cases t) (auto dest: sig_ok_SetJoined sig_ok_UnsetJoined)
  then show ?case using Cons.IH [of "(c1, h1)"] y by simp
qed

lemma closed_mono_SetJoined: "a \<in> closed h \<Longrightarrow> a \<in> closed (snd (SetJoined c h))"
  by (simp add: SetJoined_def close_chan_def)

lemma closed_mono_UnsetJoined: "a \<in> closed h \<Longrightarrow> a \<in> closed (snd (UnsetJoined c h))"
  by (simp add: UnsetJoined_def make_chan_def Let_def)

lemma closed_mono_transits: "a \<in> closed (snd x) \<Longrightarrow> a \<in> closed (snd (transits ts x))"
proof (induction ts arbitrary: x)
  case Nil
  then show ?case by simp
next
  case (Cons t ts)
  obtain c h where x: "x = (c, h)" by (cases x)
  have "a \<in> closed (snd (transit t x))"
    using Cons.prems x by (cases t) (simp_all add: closed_mono_SetJoined closed_mono_UnsetJoined)
  then show ?case using Cons.IH by simp
qed




lemma sig_ok_newChannelState:
  "\<forall>a \<in> closed h. a < nextChan h \<Longrightarrow> \<not> crashed h \<Longrightarrow> newChannelState ch h = (c, h1) \<Longrightarrow> sig_ok c h1"
  by (auto simp: newChannelState_def make_chan_def sig_ok_def Let_def less_Suc_eq)

lemma transits_not_joined:
  "\<not> joined (fst x) \<Longrightarrow> DoSetJoined \<notin> set ts \<Longrightarrow> transits ts x = x"
proof (induction ts arbitrary: x)
  case Nil
  then show ?case by simp
next
  case (Cons t ts)
  obtain c h where x: "x = (c, h)" by (cases x)
  have "transit t x = x"
    using Cons.prems x by (cases t) (simp_all add: UnsetJoined_def)
  then show ?case using Cons by simp
qed

lemma UnsetJoined_fresh:
  "sig_ok c h \<Longrightarrow> joined c \<Longrightarrow>
     joinDone (fst (UnsetJoined c h)) = nextChan h \<and> \<not> joined (fst (UnsetJoined c h)) \<and>
     closed (snd (UnsetJoined c h)) = closed h"
  by (simp add: UnsetJoined_def make_chan_def Let_def)

text \<open>
  Claim C1.  For a channel state whose signal is in order: the signal that \<open>SetJoined\<close>
  satisfies stays satisfied through every later run of \<open>SetJoined\<close> and \<open>UnsetJoined\<close>
  calls, and so does any signal that was ever satisfied (a later unset revokes nothing);
  an \<open>UnsetJoined\<close> that resets installs a signal different from the old one and
  unsatisfied, which stays the current one and unsatisfied for as long as no \<open>SetJoined\<close>
  follows; and at every moment the current signal is satisfied exactly when \<open>joined\<close>
  is set, no \<open>close\<close> ever hitting a closed channel.
\<close>

theorem signal_monotone_generation_scoped:
  assumes ok: "sig_ok c h"
  shows "joinDone c \<in> closed (snd (transits ts (SetJoined c h))) \<and>
    (a \<in> closed h \<longrightarrow> a \<in> closed (snd (transits ts (c, h)))) \<and>
    (joined c \<longrightarrow>
       joinDone (fst (UnsetJoined c h)) \<noteq> joinDone c \<and>
       joinDone (fst (UnsetJoined c h)) \<notin> closed (snd (UnsetJoined c h)) \<and>
       (DoSetJoined \<notin> set ts \<longrightarrow>
          joinDone (fst (transits ts (UnsetJoined c h))) = joinDone (fst (UnsetJoined c h)) \<and>
          joinDone (fst (UnsetJoined c h)) \<notin> closed (snd (transits ts (UnsetJoined c h))))) \<and>
    (joined (fst (transits ts (c, h))) \<longleftrightarrow>
       joinDone (fst (transits ts (c, h))) \<in> closed (snd (transits ts (c, h)))) \<and>
    \<not> crashed (snd (transits ts (c, h)))"
proof -
  have "joinDone c \<in> closed (snd (SetJoined c h))"
    using ok by (auto simp: sig_ok_def SetJoined_def close_chan_def)
  then have A: "joinDone c \<in> closed (snd (transits ts (SetJoined c h)))"
    by (rule closed_mono_transits)
  have B: "a \<in> closed h \<longrightarrow> a \<in> closed (snd (transits ts (c, h)))"
    using closed_mono_transits [of a "(c, h)" ts] by simp
  have C: "joinDone (fst (UnsetJoined c h)) \<noteq> joinDone c \<and>
       joinDone (fst (UnsetJoined c h)) \<notin> closed (snd (UnsetJoined c h)) \<and>
       (DoSetJoined \<notin> set ts \<longrightarrow>
          joinDone (fst (transits ts (UnsetJoined c h))) = joinDone (fst (UnsetJoined c h)) \<and>
          joinDone (fst (UnsetJoined c h)) \<notin> closed (snd (transits ts (UnsetJoined c h))))"
    if j: "joined c"
  proof -
    note f = UnsetJoined_fresh [OF ok j]
    have ne: "joinDone (fst (UnsetJoined c h)) \<noteq> joinDone c"
      using f ok by (auto simp: sig_ok_def)
    have nc: "joinDone (fst (UnsetJoined c h)) \<notin> closed (snd (UnsetJoined c h))"
      using f ok by (auto simp: sig_ok_def)
    have "transits ts (UnsetJoined c h) = UnsetJoined c h" if "DoSetJoined \<notin> set ts"
      using transits_not_joined [of "UnsetJoined c h" ts] f that by simp
    then show ?thesis using ne nc by simp
  qed
  have D: "sig_ok (fst (transits ts (c, h))) (snd (transits ts (c, h)))"
    using sig_ok_transits [of "(c, h)" ts] ok by simp
  show ?thesis using A B C D by (simp add: sig_ok_def)
qed



lemma joined_channel_eq:
  "joined_channel = \<lparr>channel = ops_channel, delayer = NewDelayer 300 1800 1000000000, joinDone = 0, joined = True,
           joinUnsetSignal = 1, pc = NotStarted, ctx = None\<rparr>"
  "joined_heap = \<lparr>closed = {0}, nextChan = 2, crashed = False\<rparr>"
  by (simp_all add: joined_channel_def joined_heap_def newChannelState_def make_chan_def heap0_def SetJoined_def
      close_chan_def ircJoinMaxBackoffSecs_def ircJoinBackoffResetSecs_def time_Second_def)

theorem signal_monotone_generation_scoped_witness:
  "sig_ok joined_channel joined_heap \<and> joined joined_channel \<and>
   DoSetJoined \<notin> set [DoUnsetJoined, DoUnsetJoined] \<and>
   joinDone joined_channel = 0 \<and> 0 \<in> closed joined_heap \<and>
   0 \<in> closed (snd (transits [DoUnsetJoined, DoUnsetJoined] (joined_channel, joined_heap))) \<and>
   joinDone (fst (UnsetJoined joined_channel joined_heap)) = 2 \<and>
   2 \<notin> closed (snd (transits [DoUnsetJoined, DoUnsetJoined] (UnsetJoined joined_channel joined_heap)))"
proof -
  have ok: "sig_ok joined_channel joined_heap"
    by (simp add: joined_channel_eq sig_ok_def)
  have j: "joined joined_channel"
    by (simp add: joined_channel_eq)
  have u: "joinDone (fst (UnsetJoined joined_channel joined_heap)) = 2"
    by (simp add: joined_channel_eq UnsetJoined_def make_chan_def)
  show ?thesis
    using signal_monotone_generation_scoped [OF ok, of "[DoUnsetJoined, DoUnsetJoined]" 0] ok j u
    by (simp add: joined_channel_eq)
qed

text \<open>
  Claim C2.  \<open>SetJoined\<close> on a joined state and \<open>UnsetJoined\<close> on a state that is not
  joined change nothing at all: neither the flag, nor the signal, nor the heap (nothing is
  closed, nothing is made).  So a second call in a row is a no-op, the flag staying true,
  respectively false.
\<close>

theorem SetJoined_UnsetJoined_idempotent:
  "(joined c \<longrightarrow> SetJoined c h = (c, h)) \<and>
   (\<not> joined c \<longrightarrow> UnsetJoined c h = (c, h)) \<and>
   joined (fst (SetJoined c h)) \<and>
   SetJoined (fst (SetJoined c h)) (snd (SetJoined c h)) = SetJoined c h \<and>
   \<not> joined (fst (UnsetJoined c h)) \<and>
   UnsetJoined (fst (UnsetJoined c h)) (snd (UnsetJoined c h)) = UnsetJoined c h"
  by (simp add: SetJoined_def UnsetJoined_def make_chan_def Let_def)

theorem SetJoined_UnsetJoined_idempotent_witness:
  "joined joined_channel \<and> SetJoined joined_channel joined_heap = (joined_channel, joined_heap) \<and>
   \<not> joined (fst (newChannelState ops_channel heap0)) \<and>
   UnsetJoined (fst (newChannelState ops_channel heap0)) heap0 = (fst (newChannelState ops_channel heap0), heap0)"
proof -
  have j: "joined joined_channel"
    by (simp add: joined_channel_eq)
  have n: "\<not> joined (fst (newChannelState ops_channel heap0))"
    by (simp add: newChannelState_def make_chan_def)
  show ?thesis
    using SetJoined_UnsetJoined_idempotent [of joined_channel joined_heap]
      SetJoined_UnsetJoined_idempotent [of "fst (newChannelState ops_channel heap0)" heap0] j n
    by simp
qed


section \<open>The steps of the Monitor goroutine\<close>


lemma step_LoopHead:
  "p < length (loops w) \<Longrightarrow> pc (loops w ! p) = LoopHead \<Longrightarrow> ctx (loops w ! p) = Some x \<Longrightarrow>
   monitor_step p ev w =
     (if ev \<noteq> Run then None
      else if ctx_Err w x = Some Canceled then Some (wg_Done (set_pc p Exited w))
      else if \<not> joined (loops w ! p) then Some (set_pc p InDelay w)
      else Some (set_pc p BeforeUnsetWait w))"
  by (simp add: monitor_step_def Let_def)

lemma step_nil:
  "p < length (loops w) \<Longrightarrow> pc (loops w ! p) = LoopHead \<Longrightarrow> ctx (loops w ! p) = None \<Longrightarrow>
   monitor_step p ev w = (if ev = Run then Some (wg_Done (set_pc p Panicked w)) else None)"
  by (simp add: monitor_step_def Let_def)

lemma step_InDelay:
  "p < length (loops w) \<Longrightarrow> pc (loops w ! p) = InDelay \<Longrightarrow> ctx (loops w ! p) = Some x \<Longrightarrow>
   monitor_step p ev w =
     (if ev = DelayElapsed
      then Some (set_pc p JoinSent
             (client_Join (Name (channel (loops w ! p))) (Password (channel (loops w ! p))) w))
      else if ev = DelayCancelled \<and> ctx_Err w x \<noteq> None then Some (set_pc p LoopHead w)
      else None)"
  by (simp add: monitor_step_def Let_def DelayContext_returns_def)

lemma step_JoinSent:
  "p < length (loops w) \<Longrightarrow> pc (loops w ! p) = JoinSent \<Longrightarrow> ctx (loops w ! p) = Some x \<Longrightarrow>
   monitor_step p ev w =
     (if ev = Run
      then Some (set_pc p (InJoinWait (joinDone (loops w ! p)) (ircJoinWaitSecs * time_Second)) w)
      else None)"
  by (simp add: monitor_step_def Let_def JoinDone_def)

lemma step_InJoinWait:
  "p < length (loops w) \<Longrightarrow> pc (loops w ! p) = InJoinWait a d \<Longrightarrow> ctx (loops w ! p) = Some x \<Longrightarrow>
   monitor_step p ev w =
     (if (ev = SignalClosed \<and> a \<in> closed (chn w)) \<or> timer_fired ev d \<or>
         (ev = CtxDone \<and> ctx_Err w x \<noteq> None)
      then Some (set_pc p LoopHead w) else None)"
  by (simp add: monitor_step_def Let_def)

lemma step_BeforeUnsetWait:
  "p < length (loops w) \<Longrightarrow> pc (loops w ! p) = BeforeUnsetWait \<Longrightarrow> ctx (loops w ! p) = Some x \<Longrightarrow>
   monitor_step p ev w = (if ev = Run then Some (set_pc p InUnsetWait w) else None)"
  by (simp add: monitor_step_def Let_def)

lemma step_InUnsetWait:
  "p < length (loops w) \<Longrightarrow> pc (loops w ! p) = InUnsetWait \<Longrightarrow> ctx (loops w ! p) = Some x \<Longrightarrow>
   monitor_step p ev w =
     (if ev = CtxDone \<and> ctx_Err w x \<noteq> None then Some (set_pc p LoopHead w) else None)"
  by (simp add: monitor_step_def Let_def)

lemma step_stopped:
  "\<not> running (pc (loops w ! p)) \<Longrightarrow> monitor_step p ev w = None"
  by (cases "pc (loops w ! p)") (simp_all add: monitor_step_def Let_def)

lemma step_out_of_range: "length (loops w) \<le> p \<Longrightarrow> monitor_step p ev w = None"
  by (simp add: monitor_step_def)

lemmas step_simps = step_LoopHead step_InDelay step_JoinSent step_InJoinWait
  step_BeforeUnsetWait step_InUnsetWait

text \<open>A step changes the control state of its goroutine, the counter of the wait group
  and the requests sent, and nothing else.\<close>

lemma monitor_step_shape:
  assumes "monitor_step p ev w = Some w1"
  shows "p < length (loops w) \<and> running (pc (loops w ! p)) \<and>
     w1 = w\<lparr>loops := (loops w)[p := (loops w ! p)\<lparr>pc := pc (loops w1 ! p)\<rparr>],
            stopWg := stopWg w1, sent := sent w1\<rparr>"
proof -
  have r: "p < length (loops w)"
    using assms step_out_of_range [of w p ev] by (cases "p < length (loops w)") auto
  have run: "running (pc (loops w ! p))"
    using assms step_stopped [of w p ev] by auto
  have sh: "w1 = w\<lparr>loops := (loops w)[p := (loops w ! p)\<lparr>pc := pc (loops w1 ! p)\<rparr>],
            stopWg := stopWg w1, sent := sent w1\<rparr>"
  proof (cases "ctx (loops w ! p)")
    case None
    then show ?thesis
      using assms r run
      by (cases "pc (loops w ! p)")
         (auto simp: monitor_step_def Let_def set_pc_def wg_Done_def split: if_splits)
  next
    case (Some x)
    show ?thesis
      using assms r run Some
      by (cases "pc (loops w ! p)")
         (auto simp: step_simps set_pc_def wg_Done_def client_Join_def split: if_splits)
  qed
  show ?thesis using r run sh by blast
qed

lemma monitor_step_frame:
  assumes "monitor_step p ev w = Some w1"
  shows "length (loops w1) = length (loops w)" "cancelled w1 = cancelled w"
    "parentErr w1 = parentErr w" "channels w1 = channels w" "chn w1 = chn w"
    "stopCtx w1 = stopCtx w" "stopCtxCancel w1 = stopCtxCancel w"
    "nextCtx w1 = nextCtx w" "ctx_Err w1 = ctx_Err w"
    "ctx (loops w1 ! q) = ctx (loops w ! q)"
    "joinDone (loops w1 ! q) = joinDone (loops w ! q)"
    "joined (loops w1 ! q) = joined (loops w ! q)"
    "channel (loops w1 ! q) = channel (loops w ! q)"
    "q \<noteq> p \<Longrightarrow> loops w1 ! q = loops w ! q"
proof -
  note sh = monitor_step_shape [OF assms]
  define v where "v = pc (loops w1 ! p)"
  have eq: "w1 = w\<lparr>loops := (loops w)[p := (loops w ! p)\<lparr>pc := v\<rparr>],
            stopWg := stopWg w1, sent := sent w1\<rparr>"
    using sh v_def by simp
  have lp: "loops w1 = (loops w)[p := (loops w ! p)\<lparr>pc := v\<rparr>]"
    by (subst eq) simp
  show "length (loops w1) = length (loops w)" using lp by simp
  show "cancelled w1 = cancelled w" by (subst eq) simp
  show "parentErr w1 = parentErr w" by (subst eq) simp
  show "channels w1 = channels w" by (subst eq) simp
  show "chn w1 = chn w" by (subst eq) simp
  show "stopCtx w1 = stopCtx w" by (subst eq) simp
  show "stopCtxCancel w1 = stopCtxCancel w" by (subst eq) simp
  show "nextCtx w1 = nextCtx w" by (subst eq) simp
  show "ctx_Err w1 = ctx_Err w"
    by (subst eq) (simp add: ctx_Err_def fun_eq_iff)
  show "ctx (loops w1 ! q) = ctx (loops w ! q)"
    using sh lp by (cases "q = p") simp_all
  show "joinDone (loops w1 ! q) = joinDone (loops w ! q)"
    using sh lp by (cases "q = p") simp_all
  show "joined (loops w1 ! q) = joined (loops w ! q)"
    using sh lp by (cases "q = p") simp_all
  show "channel (loops w1 ! q) = channel (loops w ! q)"
    using sh lp by (cases "q = p") simp_all
  show "q \<noteq> p \<Longrightarrow> loops w1 ! q = loops w ! q"
    using lp by simp
qed


section \<open>One iteration of join\<close>

lemma set_pc_simps:
  "sent (set_pc p v w) = sent w" "stopWg (set_pc p v w) = stopWg w"
  "p < length (loops w) \<Longrightarrow> pc (loops (set_pc p v w) ! p) = v"
  "length (loops (set_pc p v w)) = length (loops w)"
  "ctx_Err (set_pc p v w) = ctx_Err w"
  "chn (set_pc p v w) = chn w"
  by (simp_all add: set_pc_def ctx_Err_def fun_eq_iff)

lemma set_pc_ctx: "ctx (loops (set_pc p v w) ! q) = ctx (loops w ! q)"
  by (cases "q = p"; cases "p < length (loops w)") (simp_all add: set_pc_def list_update_beyond)

lemma client_Join_simps:
  "sent (client_Join n pw w) = sent w @ [(n, pw)]" "loops (client_Join n pw w) = loops w"
  "ctx_Err (client_Join n pw w) = ctx_Err w"
  by (simp_all add: client_Join_def ctx_Err_def fun_eq_iff)

lemma wg_Done_simps:
  "sent (wg_Done w) = sent w" "loops (wg_Done w) = loops w" "stopWg (wg_Done w) = stopWg w - 1"
  "ctx_Err (wg_Done w) = ctx_Err w"
  by (simp_all add: wg_Done_def ctx_Err_def fun_eq_iff)

lemma newChannelState_fields:
  "channel (fst (newChannelState ch h)) = ch"
  "joinDone (fst (newChannelState ch h)) = nextChan h"
  "joined (fst (newChannelState ch h)) = False"
  "pc (fst (newChannelState ch h)) = NotStarted"
  "ctx (fst (newChannelState ch h)) = None"
  "closed (snd (newChannelState ch h)) = closed h"
  "nextChan (snd (newChannelState ch h)) = Suc (Suc (nextChan h))"
  "crashed (snd (newChannelState ch h)) = crashed h"
  by (simp_all add: newChannelState_def make_chan_def)

lemma newChannelState_delayer:
  "delayer (fst (newChannelState ch h)) =
     \<lparr>maxDelay = 300, resetAfter = 1800, initialDelay = time_Second\<rparr>"
  by (simp add: newChannelState_def make_chan_def NewDelayer_def
      ircJoinMaxBackoffSecs_def ircJoinBackoffResetSecs_def)

text \<open>
  Claim C9.  An iteration of \<open>Monitor\<close> that finds the channel not joined (and the context
  not cancelled) goes into the delay and sends nothing.  From the delay the goroutine
  leaves only in two ways: cancelled (possible only once the context is done), back to the
  loop head with nothing sent; or elapsed, and then exactly one request is appended to those
  sent, carrying the name and the password of the channel.  Its next step captures the
  current signal and a timer of 10 seconds, sending nothing; from that wait it leaves
  exactly when the captured signal is closed, when the timer has run its 10 seconds, or when
  the context is done.  The delayer of a new channel state is made with maximum 300,
  reset after 1800 and one second as the initial delay.
\<close>

theorem join_iteration:
  assumes "p < length (loops w)" and "ctx (loops w ! p) = Some x"
  shows
   "(pc (loops w ! p) = LoopHead \<and> \<not> joined (loops w ! p) \<and> ctx_Err w x \<noteq> Some Canceled \<longrightarrow>
       monitor_step p ev w = (if ev = Run then Some (set_pc p InDelay w) else None) \<and>
       sent (set_pc p InDelay w) = sent w) \<and>
    (pc (loops w ! p) = InDelay \<longrightarrow>
       monitor_step p ev w =
         (if ev = DelayElapsed
          then Some (set_pc p JoinSent
                 (client_Join (Name (channel (loops w ! p))) (Password (channel (loops w ! p))) w))
          else if ev = DelayCancelled \<and> ctx_Err w x \<noteq> None then Some (set_pc p LoopHead w)
          else None) \<and>
       sent (set_pc p LoopHead w) = sent w \<and>
       sent (set_pc p JoinSent
              (client_Join (Name (channel (loops w ! p))) (Password (channel (loops w ! p))) w)) =
         sent w @ [(Name (channel (loops w ! p)), Password (channel (loops w ! p)))]) \<and>
    (pc (loops w ! p) = JoinSent \<longrightarrow>
       monitor_step p ev w =
         (if ev = Run then Some (set_pc p (InJoinWait (joinDone (loops w ! p)) (10 * time_Second)) w)
          else None) \<and>
       sent (set_pc p (InJoinWait (joinDone (loops w ! p)) (10 * time_Second)) w) = sent w) \<and>
    (pc (loops w ! p) = InJoinWait a d \<longrightarrow>
       monitor_step p ev w =
         (if (ev = SignalClosed \<and> a \<in> closed (chn w)) \<or> timer_fired ev d \<or>
             (ev = CtxDone \<and> ctx_Err w x \<noteq> None)
          then Some (set_pc p LoopHead w) else None) \<and>
       sent (set_pc p LoopHead w) = sent w) \<and>
    timer_fired (TimerFired t) (10 * time_Second) = (10 * 1000000000 \<le> t) \<and>
    delayer (fst (newChannelState ch h)) =
      \<lparr>maxDelay = 300, resetAfter = 1800, initialDelay = time_Second\<rparr> \<and>
    time_Second = 1000000000"
proof -
  note r = assms
  have A: "pc (loops w ! p) = LoopHead \<and> \<not> joined (loops w ! p) \<and> ctx_Err w x \<noteq> Some Canceled \<longrightarrow>
       monitor_step p ev w = (if ev = Run then Some (set_pc p InDelay w) else None) \<and>
       sent (set_pc p InDelay w) = sent w"
    using r by (simp add: step_LoopHead set_pc_simps)
  have B: "pc (loops w ! p) = InDelay \<longrightarrow>
       monitor_step p ev w =
         (if ev = DelayElapsed
          then Some (set_pc p JoinSent
                 (client_Join (Name (channel (loops w ! p))) (Password (channel (loops w ! p))) w))
          else if ev = DelayCancelled \<and> ctx_Err w x \<noteq> None then Some (set_pc p LoopHead w)
          else None) \<and>
       sent (set_pc p LoopHead w) = sent w \<and>
       sent (set_pc p JoinSent
              (client_Join (Name (channel (loops w ! p))) (Password (channel (loops w ! p))) w)) =
         sent w @ [(Name (channel (loops w ! p)), Password (channel (loops w ! p)))]"
    using r by (simp add: step_InDelay set_pc_simps client_Join_simps)
  have C: "pc (loops w ! p) = JoinSent \<longrightarrow>
       monitor_step p ev w =
         (if ev = Run then Some (set_pc p (InJoinWait (joinDone (loops w ! p)) (10 * time_Second)) w)
          else None) \<and>
       sent (set_pc p (InJoinWait (joinDone (loops w ! p)) (10 * time_Second)) w) = sent w"
    using r by (simp add: step_JoinSent set_pc_simps ircJoinWaitSecs_def)
  have D: "pc (loops w ! p) = InJoinWait a d \<longrightarrow>
       monitor_step p ev w =
         (if (ev = SignalClosed \<and> a \<in> closed (chn w)) \<or> timer_fired ev d \<or>
             (ev = CtxDone \<and> ctx_Err w x \<noteq> None)
          then Some (set_pc p LoopHead w) else None) \<and>
       sent (set_pc p LoopHead w) = sent w"
    using r by (simp add: step_InJoinWait set_pc_simps)
  have E: "timer_fired (TimerFired t) (10 * time_Second) = (10 * 1000000000 \<le> t)"
    by (simp add: time_Second_def)
  have F: "time_Second = 1000000000"
    by (simp add: time_Second_def)
  show ?thesis
    using A B C D E F newChannelState_delayer [of ch h] by blast
qed


lemma started_world_eq:
  "started_world = \<lparr>preJoinChannels = [ops_channel], channels = [''#ops'' \<mapsto> 0],
      stopCtx = Some \<lparr>own = 0, parent = 0\<rparr>, stopCtxCancel = Some \<lparr>own = 0, parent = 0\<rparr>,
      stopWg = 1, nick = ''relay'', sent = [],
      loops = [\<lparr>channel = ops_channel,
                delayer = \<lparr>maxDelay = 300, resetAfter = 1800, initialDelay = 1000000000\<rparr>,
                joinDone = 0, joined = False, joinUnsetSignal = 1, pc = LoopHead,
                ctx = Some \<lparr>own = 0, parent = 0\<rparr>\<rparr>],
      chn = \<lparr>closed = {}, nextChan = 2, crashed = False\<rparr>, cancelled = {},
      nextCtx = 1, parentErr = (\<lambda>k. None)\<rparr>"
  by (simp add: started_world_def fresh_world_def NewChannelReconciler_def Start_def unsafeStop_def
      WithCancel_def unsafeAddChannel_def newChannelState_def make_chan_def wg_Add_def NewDelayer_def
      ircJoinMaxBackoffSecs_def ircJoinBackoffResetSecs_def time_Second_def ops_channel_def)

theorem join_iteration_witness:
  "monitor_step 0 Run started_world = Some (set_pc 0 InDelay started_world) \<and>
   monitor_step 0 DelayElapsed (set_pc 0 InDelay started_world) =
     Some (set_pc 0 JoinSent (client_Join ''#ops'' ''secret'' (set_pc 0 InDelay started_world))) \<and>
   sent (set_pc 0 JoinSent (client_Join ''#ops'' ''secret'' (set_pc 0 InDelay started_world))) =
     [(''#ops'', ''secret'')] \<and>
   monitor_step 0 DelayCancelled (set_pc 0 InDelay started_world) = None \<and>
   monitor_step 0 Run
     (set_pc 0 JoinSent (client_Join ''#ops'' ''secret'' (set_pc 0 InDelay started_world))) =
     Some (set_pc 0 (InJoinWait 0 10000000000)
       (set_pc 0 JoinSent (client_Join ''#ops'' ''secret'' (set_pc 0 InDelay started_world)))) \<and>
   monitor_step 0 (TimerFired 10000000000)
     (set_pc 0 (InJoinWait 0 10000000000)
       (set_pc 0 JoinSent (client_Join ''#ops'' ''secret'' (set_pc 0 InDelay started_world)))) =
     Some (set_pc 0 LoopHead (set_pc 0 (InJoinWait 0 10000000000)
       (set_pc 0 JoinSent (client_Join ''#ops'' ''secret'' (set_pc 0 InDelay started_world))))) \<and>
   monitor_step 0 (TimerFired 9999999999)
     (set_pc 0 (InJoinWait 0 10000000000)
       (set_pc 0 JoinSent (client_Join ''#ops'' ''secret'' (set_pc 0 InDelay started_world)))) = None"
proof -
  define x where "x = \<lparr>own = 0, parent = 0\<rparr>"
  define w1 where "w1 = set_pc 0 InDelay started_world"
  define w2 where "w2 = set_pc 0 JoinSent (client_Join ''#ops'' ''secret'' w1)"
  define w3 where "w3 = set_pc 0 (InJoinWait 0 10000000000) w2"
  have f0: "0 < length (loops started_world)" "ctx (loops started_world ! 0) = Some x"
    "pc (loops started_world ! 0) = LoopHead \<and> \<not> joined (loops started_world ! 0) \<and>
       ctx_Err started_world x \<noteq> Some Canceled"
    by (simp_all add: started_world_eq ctx_Err_def x_def)
  have f1: "0 < length (loops w1)" "ctx (loops w1 ! 0) = Some x" "pc (loops w1 ! 0) = InDelay"
    "Name (channel (loops w1 ! 0)) = ''#ops''" "Password (channel (loops w1 ! 0)) = ''secret''"
    "ctx_Err w1 x = None" "sent w1 = []"
    by (simp_all add: w1_def x_def set_pc_def started_world_eq ctx_Err_def ops_channel_def)
  have f2: "0 < length (loops w2)" "ctx (loops w2 ! 0) = Some x" "pc (loops w2 ! 0) = JoinSent"
    "joinDone (loops w2 ! 0) = 0"
    by (simp_all add: w2_def w1_def x_def set_pc_def client_Join_def started_world_eq)
  have f3: "0 < length (loops w3)" "ctx (loops w3 ! 0) = Some x"
    "pc (loops w3 ! 0) = InJoinWait 0 10000000000" "ctx_Err w3 x = None" "closed (chn w3) = {}"
    by (simp_all add: w3_def w2_def w1_def x_def set_pc_def client_Join_def started_world_eq
        ctx_Err_def)
  have ts: "10 * time_Second = 10000000000"
    by (simp add: time_Second_def)
  note j0 = join_iteration [OF f0(1) f0(2), of Run]
  note j1 = join_iteration [OF f1(1) f1(2), of DelayElapsed]
  note j1c = join_iteration [OF f1(1) f1(2), of DelayCancelled]
  note j2 = join_iteration [OF f2(1) f2(2), of Run]
  note j3 = join_iteration [OF f3(1) f3(2), of "TimerFired 10000000000" 0 10000000000]
  note j3n = join_iteration [OF f3(1) f3(2), of "TimerFired 9999999999" 0 10000000000]
  have s0: "monitor_step 0 Run started_world = Some w1"
    using j0 f0(3) by (simp add: w1_def)
  have s1: "monitor_step 0 DelayElapsed w1 = Some w2 \<and> sent w2 = [(''#ops'', ''secret'')]"
    using j1 f1 by (simp add: w2_def)
  have s1c: "monitor_step 0 DelayCancelled w1 = None"
    using j1c f1 by simp
  have s2: "monitor_step 0 Run w2 = Some w3"
    using j2 f2 ts by (simp add: w3_def)
  have s3: "monitor_step 0 (TimerFired 10000000000) w3 = Some (set_pc 0 LoopHead w3)"
    using j3 f3 by simp
  have s3n: "monitor_step 0 (TimerFired 9999999999) w3 = None"
    using j3n f3 by simp
  show ?thesis
    using s0 s1 s1c s2 s3 s3n unfolding w3_def w2_def w1_def by simp
qed

section \<open>Cancellation of the Monitor goroutine\<close>

lemma steps_left_le: "steps_left v \<le> 4"
  by (cases v) simp_all

lemma step_decreases:
  assumes "monitor_step p ev w = Some w1" and "ctx (loops w ! p) = Some x"
    and "ctx_Err w x = Some Canceled"
  shows "steps_left (pc (loops w1 ! p)) < steps_left (pc (loops w ! p))"
proof -
  note sh = monitor_step_shape [OF assms(1)]
  have r: "p < length (loops w)" using sh by simp
  show ?thesis
    using assms r
    by (cases "pc (loops w ! p)")
       (auto simp: step_simps step_stopped set_pc_simps set_pc_ctx wg_Done_simps client_Join_simps
          split: if_splits)
qed

lemma steps_bounded:
  "monitor_steps p evs w = Some w2 \<Longrightarrow> ctx (loops w ! p) = Some x \<Longrightarrow>
   ctx_Err w x = Some Canceled \<Longrightarrow>
   length evs + steps_left (pc (loops w2 ! p)) \<le> steps_left (pc (loops w ! p))"
proof (induction evs arbitrary: w)
  case Nil
  then show ?case by simp
next
  case (Cons ev evs)
  from Cons.prems(1) obtain w1 where s: "monitor_step p ev w = Some w1"
    and r: "monitor_steps p evs w1 = Some w2"
    by (auto split: option.splits)
  have c: "ctx (loops w1 ! p) = Some x"
    using monitor_step_frame(10) [OF s, of p] Cons.prems(2) by simp
  have e: "ctx_Err w1 x = Some Canceled"
    using monitor_step_frame(9) [OF s] Cons.prems(3) by simp
  have "length evs + steps_left (pc (loops w2 ! p)) \<le> steps_left (pc (loops w1 ! p))"
    using Cons.IH [OF r c e] .
  moreover have "steps_left (pc (loops w1 ! p)) < steps_left (pc (loops w ! p))"
    using step_decreases [OF s Cons.prems(2) Cons.prems(3)] .
  ultimately show ?case by simp
qed

lemma step_exit_only_Canceled:
  assumes "monitor_step p ev w = Some w1" and "ctx (loops w ! p) = Some x"
  shows "pc (loops w1 ! p) \<noteq> Panicked \<and> pc (loops w1 ! p) \<noteq> NotStarted \<and>
    (pc (loops w1 ! p) = Exited \<longrightarrow>
       pc (loops w ! p) = LoopHead \<and> ev = Run \<and> ctx_Err w x = Some Canceled)"
proof -
  note sh = monitor_step_shape [OF assms(1)]
  have r: "p < length (loops w)" using sh by simp
  show ?thesis
    using assms r
    by (cases "pc (loops w ! p)")
       (auto simp: step_simps step_stopped set_pc_simps wg_Done_simps client_Join_simps
          split: if_splits)
qed

lemma step_enabled_Canceled:
  assumes "p < length (loops w)" and "ctx (loops w ! p) = Some x"
    and "ctx_Err w x = Some Canceled" and "running (pc (loops w ! p))"
  shows "\<exists>e. monitor_step p e w \<noteq> None"
proof (cases "pc (loops w ! p)")
  case LoopHead
  then have "monitor_step p Run w \<noteq> None" using assms by (simp add: step_simps)
  then show ?thesis by blast
next
  case InDelay
  then have "monitor_step p DelayCancelled w \<noteq> None" using assms by (simp add: step_simps)
  then show ?thesis by blast
next
  case JoinSent
  then have "monitor_step p Run w \<noteq> None" using assms by (simp add: step_simps)
  then show ?thesis by blast
next
  case (InJoinWait a d)
  then have "monitor_step p CtxDone w \<noteq> None" using assms by (simp add: step_simps)
  then show ?thesis by blast
next
  case BeforeUnsetWait
  then have "monitor_step p Run w \<noteq> None" using assms by (simp add: step_simps)
  then show ?thesis by blast
next
  case InUnsetWait
  then have "monitor_step p CtxDone w \<noteq> None" using assms by (simp add: step_simps)
  then show ?thesis by blast
qed (use assms in simp_all)

text \<open>
  The loop under a context that is not the nil one.  The goroutine never panics, and a
  step takes it to \<open>Exited\<close> only from the loop head and only when \<open>Err()\<close> of its
  context is \<open>Canceled\<close>.  Once \<open>Err()\<close> is \<open>Canceled\<close>, each blocked wait can return
  at once (the delay as cancelled, the bounded join wait and the parked wait by the done
  context), a goroutine that still runs always has a step to take, each step it takes
  brings it strictly closer to the exit, and it takes at most four steps altogether
  (\<open>client.Join\<close> returning at once, as the spec has it).
\<close>

theorem monitor_exits_on_Canceled:
  assumes "p < length (loops w)" and "ctx (loops w ! p) = Some x"
  shows
   "(monitor_step p ev w = Some w1 \<longrightarrow>
       pc (loops w1 ! p) \<noteq> Panicked \<and>
       (pc (loops w1 ! p) = Exited \<longrightarrow>
          pc (loops w ! p) = LoopHead \<and> ev = Run \<and> ctx_Err w x = Some Canceled)) \<and>
    (ctx_Err w x = Some Canceled \<longrightarrow>
       (pc (loops w ! p) = LoopHead \<longrightarrow>
          monitor_step p Run w = Some (wg_Done (set_pc p Exited w))) \<and>
       (pc (loops w ! p) = InDelay \<longrightarrow>
          monitor_step p DelayCancelled w = Some (set_pc p LoopHead w)) \<and>
       (pc (loops w ! p) = InJoinWait a d \<longrightarrow>
          monitor_step p CtxDone w = Some (set_pc p LoopHead w)) \<and>
       (pc (loops w ! p) = InUnsetWait \<longrightarrow>
          monitor_step p CtxDone w = Some (set_pc p LoopHead w)) \<and>
       (running (pc (loops w ! p)) \<longrightarrow> (\<exists>e. monitor_step p e w \<noteq> None)) \<and>
       (monitor_step p ev w = Some w1 \<longrightarrow>
          steps_left (pc (loops w1 ! p)) < steps_left (pc (loops w ! p))) \<and>
       (monitor_steps p evs w = Some w2 \<longrightarrow>
          length evs + steps_left (pc (loops w2 ! p)) \<le> steps_left (pc (loops w ! p)) \<and>
          length evs \<le> 4))"
proof -
  have A: "monitor_step p ev w = Some w1 \<longrightarrow>
       pc (loops w1 ! p) \<noteq> Panicked \<and>
       (pc (loops w1 ! p) = Exited \<longrightarrow>
          pc (loops w ! p) = LoopHead \<and> ev = Run \<and> ctx_Err w x = Some Canceled)"
    using step_exit_only_Canceled [of p ev w w1 x] assms(2) by blast
  have B: "(pc (loops w ! p) = LoopHead \<longrightarrow>
          monitor_step p Run w = Some (wg_Done (set_pc p Exited w))) \<and>
       (pc (loops w ! p) = InDelay \<longrightarrow>
          monitor_step p DelayCancelled w = Some (set_pc p LoopHead w)) \<and>
       (pc (loops w ! p) = InJoinWait a d \<longrightarrow>
          monitor_step p CtxDone w = Some (set_pc p LoopHead w)) \<and>
       (pc (loops w ! p) = InUnsetWait \<longrightarrow>
          monitor_step p CtxDone w = Some (set_pc p LoopHead w))"
    if "ctx_Err w x = Some Canceled"
    using assms that by (simp add: step_simps)
  have C: "running (pc (loops w ! p)) \<longrightarrow> (\<exists>e. monitor_step p e w \<noteq> None)"
    if "ctx_Err w x = Some Canceled"
    using step_enabled_Canceled [OF assms that] by blast
  have D: "monitor_step p ev w = Some w1 \<longrightarrow>
          steps_left (pc (loops w1 ! p)) < steps_left (pc (loops w ! p))"
    if "ctx_Err w x = Some Canceled"
    using step_decreases [of p ev w w1 x] assms(2) that by blast
  have E: "monitor_steps p evs w = Some w2 \<longrightarrow>
          length evs + steps_left (pc (loops w2 ! p)) \<le> steps_left (pc (loops w ! p)) \<and>
          length evs \<le> 4"
    if "ctx_Err w x = Some Canceled"
  proof
    assume m: "monitor_steps p evs w = Some w2"
    have "length evs + steps_left (pc (loops w2 ! p)) \<le> steps_left (pc (loops w ! p))"
      using steps_bounded [OF m assms(2) that] .
    moreover have "steps_left (pc (loops w ! p)) \<le> 4" by (rule steps_left_le)
    ultimately show "length evs + steps_left (pc (loops w2 ! p)) \<le> steps_left (pc (loops w ! p)) \<and>
          length evs \<le> 4" by simp
  qed
  show ?thesis using A B C D E by blast
qed


lemma deadline_world_eq:
  "deadline_world = started_world\<lparr>parentErr := (\<lambda>k. None)(0 := Some DeadlineExceeded)\<rparr>"
  by (simp add: deadline_world_def parent_done_def started_world_eq)

lemma unstarted_world_eq:
  "unstarted_world = \<lparr>preJoinChannels = [ops_channel], channels = [''#dev'' \<mapsto> 0],
      stopCtx = None, stopCtxCancel = None,
      stopWg = 1, nick = ''relay'', sent = [],
      loops = [\<lparr>channel = \<lparr>Name = ''#dev'', Password = []\<rparr>,
                delayer = \<lparr>maxDelay = 300, resetAfter = 1800, initialDelay = 1000000000\<rparr>,
                joinDone = 0, joined = False, joinUnsetSignal = 1, pc = LoopHead,
                ctx = None\<rparr>],
      chn = \<lparr>closed = {}, nextChan = 2, crashed = False\<rparr>, cancelled = {},
      nextCtx = 0, parentErr = (\<lambda>k. None)\<rparr>"
  by (simp add: unstarted_world_def fresh_world_def NewChannelReconciler_def JoinChannel_def
      unsafeAddChannel_def newChannelState_def make_chan_def wg_Add_def NewDelayer_def JoinDone_def
      ircJoinMaxBackoffSecs_def ircJoinBackoffResetSecs_def time_Second_def)

lemma cancelled_in_delay_world_eq:
  "cancelled_in_delay_world =
     (set_pc 0 InDelay started_world)\<lparr>parentErr := (\<lambda>k. None)(0 := Some Canceled)\<rparr>"
  by (simp add: cancelled_in_delay_world_def parent_done_def step_simps started_world_eq
      ctx_Err_def set_pc_def)

theorem monitor_exits_on_Canceled_witness:
  "ctx (loops cancelled_in_delay_world ! 0) = Some \<lparr>own = 0, parent = 0\<rparr> \<and>
   ctx_Err cancelled_in_delay_world \<lparr>own = 0, parent = 0\<rparr> = Some Canceled \<and>
   pc (loops cancelled_in_delay_world ! 0) = InDelay \<and>
   monitor_step 0 DelayCancelled cancelled_in_delay_world =
     Some (set_pc 0 LoopHead cancelled_in_delay_world) \<and>
   monitor_step 0 Run (set_pc 0 LoopHead cancelled_in_delay_world) =
     Some (wg_Done (set_pc 0 Exited (set_pc 0 LoopHead cancelled_in_delay_world))) \<and>
   pc (loops (wg_Done (set_pc 0 Exited (set_pc 0 LoopHead cancelled_in_delay_world))) ! 0) = Exited \<and>
   monitor_steps 0 [DelayCancelled, Run] cancelled_in_delay_world =
     Some (wg_Done (set_pc 0 Exited (set_pc 0 LoopHead cancelled_in_delay_world))) \<and>
   length [DelayCancelled, Run] +
     steps_left (pc (loops (wg_Done (set_pc 0 Exited (set_pc 0 LoopHead cancelled_in_delay_world))) ! 0))
     \<le> steps_left (pc (loops cancelled_in_delay_world ! 0))"
proof -
  define x where "x = \<lparr>own = 0, parent = 0\<rparr>"
  define w where "w = cancelled_in_delay_world"
  define w1 where "w1 = set_pc 0 LoopHead w"
  define w2 where "w2 = wg_Done (set_pc 0 Exited w1)"
  have f: "0 < length (loops w)" "ctx (loops w ! 0) = Some x" "ctx_Err w x = Some Canceled"
    "pc (loops w ! 0) = InDelay"
    by (simp_all add: w_def x_def cancelled_in_delay_world_eq started_world_eq set_pc_def ctx_Err_def)
  have f1: "0 < length (loops w1)" "ctx (loops w1 ! 0) = Some x" "ctx_Err w1 x = Some Canceled"
    "pc (loops w1 ! 0) = LoopHead"
    by (simp_all add: w1_def w_def x_def cancelled_in_delay_world_eq started_world_eq set_pc_def
        ctx_Err_def)
  have f2: "pc (loops w2 ! 0) = Exited"
    by (simp add: w2_def w1_def w_def cancelled_in_delay_world_eq started_world_eq set_pc_def
        wg_Done_def)
  note t = monitor_exits_on_Canceled [OF f(1) f(2), of DelayCancelled w1 0 0 "[DelayCancelled, Run]" w2]
  note t1 = monitor_exits_on_Canceled [OF f1(1) f1(2), of Run w2 0 0 "[Run]" w2]
  have s0: "monitor_step 0 DelayCancelled w = Some w1"
    using t f by (simp add: w1_def)
  have s1: "monitor_step 0 Run w1 = Some w2"
    using t1 f1 by (simp add: w2_def)
  have s: "monitor_steps 0 [DelayCancelled, Run] w = Some w2"
    using s0 s1 by simp
  have b: "length [DelayCancelled, Run] + steps_left (pc (loops w2 ! 0)) \<le> steps_left (pc (loops w ! 0))"
    using t f s by blast
  show ?thesis
    using f f2 s0 s1 s b unfolding w2_def w1_def w_def x_def by simp
qed

text \<open>
  Claim C5: a goroutine runs until its context is cancelled and exits for no other reason,
  and once the context is cancelled, by \<open>Stop\<close> or by the end of a parent context, every
  blocked wait returns and the goroutine terminates.  The code departs from this on two
  inputs.  When the parent context ends by its deadline, the context of the goroutine is
  done with \<open>DeadlineExceeded\<close>: the waits do return on the done context, but the loop
  condition compares \<open>Err()\<close> with \<open>Canceled\<close> only, so the goroutine enters the delay,
  the delay returns as cancelled, and it is back at the loop head in the very same world,
  for ever.  And a goroutine started by \<open>JoinChannel\<close> before the first \<open>Start\<close> is
  handed the nil context, which \<open>unsafeStop\<close> guards against and \<open>unsafeAddChannel\<close>
  does not: no context was ever cancelled, and yet its first step ends it, by a panic.
\<close>

theorem Monitor_spins_on_deadline_panics_on_nil:
  "ctx (loops deadline_world ! 0) = Some \<lparr>own = 0, parent = 0\<rparr> \<and>
   ctx_Err deadline_world \<lparr>own = 0, parent = 0\<rparr> = Some DeadlineExceeded \<and>
   pc (loops deadline_world ! 0) = LoopHead \<and>
   monitor_step 0 Run deadline_world = Some (set_pc 0 InDelay deadline_world) \<and>
   monitor_step 0 DelayCancelled (set_pc 0 InDelay deadline_world) = Some deadline_world \<and>
   monitor_steps 0 [Run, DelayCancelled, Run, DelayCancelled] deadline_world = Some deadline_world \<and>
   ctx (loops unstarted_world ! 0) = None \<and>
   cancelled unstarted_world = {} \<and>
   monitor_step 0 Run unstarted_world = Some (wg_Done (set_pc 0 Panicked unstarted_world)) \<and>
   pc (loops (wg_Done (set_pc 0 Panicked unstarted_world)) ! 0) = Panicked"
proof -
  define x where "x = \<lparr>own = 0, parent = 0\<rparr>"
  have d: "0 < length (loops deadline_world)" "ctx (loops deadline_world ! 0) = Some x"
    "ctx_Err deadline_world x = Some DeadlineExceeded" "pc (loops deadline_world ! 0) = LoopHead"
    "\<not> joined (loops deadline_world ! 0)"
    by (simp_all add: deadline_world_eq started_world_eq ctx_Err_def x_def)
  define w1 where "w1 = set_pc 0 InDelay deadline_world"
  have d1: "0 < length (loops w1)" "ctx (loops w1 ! 0) = Some x"
    "ctx_Err w1 x = Some DeadlineExceeded" "pc (loops w1 ! 0) = InDelay"
    by (simp_all add: w1_def deadline_world_eq started_world_eq ctx_Err_def x_def set_pc_def)
  have again: "set_pc 0 LoopHead w1 = deadline_world"
    by (simp add: w1_def deadline_world_eq started_world_eq set_pc_def)
  have s0: "monitor_step 0 Run deadline_world = Some w1"
    using d by (simp add: step_simps w1_def)
  have s1: "monitor_step 0 DelayCancelled w1 = Some deadline_world"
    using d1 again by (simp add: step_simps)
  have s: "monitor_steps 0 [Run, DelayCancelled, Run, DelayCancelled] deadline_world = Some deadline_world"
    using s0 s1 by simp
  have u: "0 < length (loops unstarted_world)" "ctx (loops unstarted_world ! 0) = None"
    "pc (loops unstarted_world ! 0) = LoopHead" "cancelled unstarted_world = {}"
    by (simp_all add: unstarted_world_eq)
  have s2: "monitor_step 0 Run unstarted_world = Some (wg_Done (set_pc 0 Panicked unstarted_world))"
    using u by (simp add: step_nil)
  have s3: "pc (loops (wg_Done (set_pc 0 Panicked unstarted_world)) ! 0) = Panicked"
    using u by (simp add: wg_Done_simps set_pc_simps)
  show ?thesis
    using d s0 s1 s u s2 s3 unfolding w1_def x_def by simp
qed

section \<open>The registry: JoinChannel and the event handlers\<close>

lemma unsafeAddChannel_eq:
  "unsafeAddChannel ch w =
     (length (loops w),
      w\<lparr>chn := snd (newChannelState ch (chn w)), stopWg := stopWg w + 1,
        loops := loops w @ [(fst (newChannelState ch (chn w)))\<lparr>pc := LoopHead, ctx := stopCtx w\<rparr>],
        channels := (channels w)(Name ch \<mapsto> length (loops w))\<rparr>)"
  by (simp add: unsafeAddChannel_def wg_Add_def Let_def split: prod.splits)

lemma JoinChannel_present:
  "channels w n = Some p \<Longrightarrow>
   JoinChannel n w =
     (if joinDone (loops w ! p) \<in> closed (chn w) then (True, None)
      else (False, Some (joinDone (loops w ! p))), w)"
  by (simp add: JoinChannel_def JoinDone_def)

lemma JoinChannel_absent:
  "channels w n = None \<Longrightarrow>
   JoinChannel n w =
     (if nextChan (chn w) \<in> closed (chn w) then (True, None)
      else (False, Some (nextChan (chn w))),
      snd (unsafeAddChannel \<lparr>Name = n, Password = []\<rparr> w))"
  by (simp add: JoinChannel_def JoinDone_def unsafeAddChannel_eq newChannelState_fields)

lemma fresh_not_closed: "signals_ok w \<Longrightarrow> nextChan (chn w) \<notin> closed (chn w)"
  by (auto simp: signals_ok_def)

text \<open>
  Claim C3.  In a world whose registry and signals are in order, \<open>JoinChannel\<close> returns
  with the name registered.  A name that was registered leaves the world as it was; a name
  that was not gets a new channel state at the end of the heap, with that name and the
  empty password, not joined, its goroutine started under the current context, and nothing
  else happens (no signal is closed, no request is sent).  The answer is \<open>(true, nil)\<close>
  exactly when the name was registered and the current signal of its state is closed;
  otherwise it is \<open>false\<close> with the current signal of the state, which is still open at
  the return: the call has not waited for it.
\<close>

theorem JoinChannel_ensures_loop:
  assumes "registry_ok w" and "signals_ok w"
  shows
   "(\<exists>p. channels (snd (JoinChannel n w)) n = Some p \<and>
         p < length (loops (snd (JoinChannel n w))) \<and>
         (if joinDone (loops (snd (JoinChannel n w)) ! p) \<in> closed (chn (snd (JoinChannel n w)))
          then fst (JoinChannel n w) = (True, None)
          else fst (JoinChannel n w) = (False, Some (joinDone (loops (snd (JoinChannel n w)) ! p))))) \<and>
    (channels w n \<noteq> None \<longrightarrow> snd (JoinChannel n w) = w) \<and>
    (channels w n = None \<longrightarrow>
       channels (snd (JoinChannel n w)) = (channels w)(n \<mapsto> length (loops w)) \<and>
       (\<exists>c. loops (snd (JoinChannel n w)) = loops w @ [c] \<and>
            channel c = \<lparr>Name = n, Password = []\<rparr> \<and> \<not> joined c \<and>
            pc c = LoopHead \<and> ctx c = stopCtx w) \<and>
       closed (chn (snd (JoinChannel n w))) = closed (chn w) \<and>
       sent (snd (JoinChannel n w)) = sent w \<and>
       stopWg (snd (JoinChannel n w)) = stopWg w + 1) \<and>
    (fst (fst (JoinChannel n w)) \<longleftrightarrow>
       (\<exists>p. channels w n = Some p \<and> joinDone (loops w ! p) \<in> closed (chn w)))"
proof (cases "channels w n")
  case None
  have nc: "nextChan (chn w) \<notin> closed (chn w)"
    using fresh_not_closed [OF assms(2)] .
  show ?thesis
    using None nc
    by (simp add: JoinChannel_absent unsafeAddChannel_eq newChannelState_fields)
next
  case (Some p)
  have "p < length (loops w)"
    using assms(1) Some by (simp add: registry_ok_def)
  then show ?thesis
    using Some by (simp add: JoinChannel_present)
qed

lemma joined_world_eq:
  "joined_world = started_world\<lparr>loops := [(loops started_world ! 0)\<lparr>joined := True\<rparr>],
     chn := \<lparr>closed = {0}, nextChan = 2, crashed = False\<rparr>\<rparr>"
  by (simp add: joined_world_def HandleJoin_def SetJoined_def close_chan_def started_world_eq)

lemma two_world_eq:
  "two_world = started_world\<lparr>channels := [''#ops'' \<mapsto> 0, ''#dev'' \<mapsto> 1], stopWg := 2,
     loops := loops started_world @
       [\<lparr>channel = \<lparr>Name = ''#dev'', Password = []\<rparr>,
         delayer = \<lparr>maxDelay = 300, resetAfter = 1800, initialDelay = 1000000000\<rparr>,
         joinDone = 2, joined = False, joinUnsetSignal = 3, pc = LoopHead,
         ctx = Some \<lparr>own = 0, parent = 0\<rparr>\<rparr>],
     chn := \<lparr>closed = {}, nextChan = 4, crashed = False\<rparr>\<rparr>"
  by (simp add: two_world_def JoinChannel_def unsafeAddChannel_eq newChannelState_def make_chan_def
      NewDelayer_def ircJoinMaxBackoffSecs_def ircJoinBackoffResetSecs_def time_Second_def
      started_world_eq JoinDone_def)

lemma example_worlds_ok:
  "registry_ok started_world" "signals_ok started_world"
  "registry_ok joined_world" "signals_ok joined_world"
  "registry_ok two_world" "signals_ok two_world"
  by (simp_all add: registry_ok_def signals_ok_def sig_ok_def joined_world_eq two_world_eq
      started_world_eq ops_channel_def)

theorem JoinChannel_ensures_loop_witness:
  "registry_ok joined_world \<and> signals_ok joined_world \<and>
   channels joined_world ''#ops'' = Some 0 \<and>
   JoinChannel ''#ops'' joined_world = ((True, None), joined_world) \<and>
   registry_ok started_world \<and> signals_ok started_world \<and>
   channels started_world ''#dev'' = None \<and>
   fst (JoinChannel ''#dev'' started_world) = (False, Some 2) \<and>
   channels (snd (JoinChannel ''#dev'' started_world)) ''#dev'' = Some 1 \<and>
   2 \<notin> closed (chn (snd (JoinChannel ''#dev'' started_world)))"
proof -
  note ok = example_worlds_ok
  have a: "channels joined_world ''#ops'' = Some 0" "joinDone (loops joined_world ! 0) = 0"
    "0 \<in> closed (chn joined_world)"
    by (simp_all add: joined_world_eq started_world_eq)
  have b: "channels started_world ''#dev'' = None" "length (loops started_world) = 1"
    "closed (chn started_world) = {}"
    by (simp_all add: started_world_eq)
  note t1 = JoinChannel_ensures_loop [OF ok(3) ok(4), of "''#ops''"]
  note t2 = JoinChannel_ensures_loop [OF ok(1) ok(2), of "''#dev''"]
  have s1: "snd (JoinChannel ''#ops'' joined_world) = joined_world"
    using t1 a by simp
  have r1: "fst (JoinChannel ''#ops'' joined_world) = (True, None)"
    using t1 a s1 by auto
  have j1: "JoinChannel ''#ops'' joined_world = ((True, None), joined_world)"
    using s1 r1 by (simp add: prod_eq_iff)
  have c2: "channels (snd (JoinChannel ''#dev'' started_world)) ''#dev'' = Some 1"
    using t2 b by simp
  have n2: "\<not> fst (fst (JoinChannel ''#dev'' started_world))"
    using t2 b by simp
  have l2: "joinDone (loops (snd (JoinChannel ''#dev'' started_world)) ! 1) = 2"
    by (simp add: JoinChannel_absent b unsafeAddChannel_eq newChannelState_fields started_world_eq)
  have o2: "closed (chn (snd (JoinChannel ''#dev'' started_world))) = {}"
    using t2 b by simp
  have r2: "fst (JoinChannel ''#dev'' started_world) = (False, Some 2)"
    using t2 c2 l2 o2 by auto
  show ?thesis
    using ok a(1) j1 b(1) r2 c2 o2 by simp
qed

lemma HandleJoin_present:
  "channels w chname = Some p \<Longrightarrow>
   HandleJoin (nick w) chname w =
     w\<lparr>loops := (loops w)[p := fst (SetJoined (loops w ! p) (chn w))],
       chn := snd (SetJoined (loops w ! p) (chn w))\<rparr>"
  by (simp add: HandleJoin_def split: prod.splits)

lemma HandleKick_present:
  "channels w chname = Some p \<Longrightarrow>
   HandleKick (nick w) chname w =
     w\<lparr>loops := (loops w)[p := fst (UnsetJoined (loops w ! p) (chn w))],
       chn := snd (UnsetJoined (loops w ! p) (chn w))\<rparr>"
  by (simp add: HandleKick_def split: prod.splits)

lemma closed_SetJoined:
  "closed (snd (SetJoined c h)) = (if joined c then closed h else insert (joinDone c) (closed h))"
  by (auto simp: SetJoined_def close_chan_def)

lemma closed_UnsetJoined: "closed (snd (UnsetJoined c h)) = closed h"
  by (simp add: UnsetJoined_def make_chan_def Let_def)

lemma other_signal:
  "signals_ok w \<Longrightarrow> p < length (loops w) \<Longrightarrow> q < length (loops w) \<Longrightarrow> q \<noteq> p \<Longrightarrow>
   joinDone (loops w ! q) \<noteq> joinDone (loops w ! p)"
  using nth_eq_iff_index_eq [of "map joinDone (loops w)" q p]
  by (simp add: signals_ok_def)

text \<open>
  Claim C4.  In a world whose registry and signals are in order: \<open>HandleJoin\<close> and
  \<open>HandleKick\<close> leave the whole world as it is when the nick is not the client's own or
  the channel has no entry (so no channel state is made); otherwise the state registered
  under the channel becomes what \<open>SetJoined\<close>, respectively \<open>UnsetJoined\<close>, makes of it,
  the heap of signals with it, and nothing else changes: not the registry, not any other
  channel state, and no other state's signal gets closed or opened.
\<close>

theorem handlers_route_to_own_loop:
  assumes "registry_ok w" and "signals_ok w"
  shows
   "(n \<noteq> nick w \<or> channels w chname = None \<longrightarrow>
       HandleJoin n chname w = w \<and> HandleKick n chname w = w) \<and>
    (n = nick w \<and> channels w chname = Some p \<longrightarrow>
       loops (HandleJoin n chname w) ! p = fst (SetJoined (loops w ! p) (chn w)) \<and>
       chn (HandleJoin n chname w) = snd (SetJoined (loops w ! p) (chn w)) \<and>
       loops (HandleKick n chname w) ! p = fst (UnsetJoined (loops w ! p) (chn w)) \<and>
       chn (HandleKick n chname w) = snd (UnsetJoined (loops w ! p) (chn w)) \<and>
       HandleJoin n chname w =
         w\<lparr>loops := loops (HandleJoin n chname w), chn := chn (HandleJoin n chname w)\<rparr> \<and>
       HandleKick n chname w =
         w\<lparr>loops := loops (HandleKick n chname w), chn := chn (HandleKick n chname w)\<rparr> \<and>
       length (loops (HandleJoin n chname w)) = length (loops w) \<and>
       length (loops (HandleKick n chname w)) = length (loops w) \<and>
       (q \<noteq> p \<longrightarrow>
          loops (HandleJoin n chname w) ! q = loops w ! q \<and>
          loops (HandleKick n chname w) ! q = loops w ! q \<and>
          (q < length (loops w) \<longrightarrow>
             (joinDone (loops w ! q) \<in> closed (chn (HandleJoin n chname w)) \<longleftrightarrow>
                joinDone (loops w ! q) \<in> closed (chn w)) \<and>
             (joinDone (loops w ! q) \<in> closed (chn (HandleKick n chname w)) \<longleftrightarrow>
                joinDone (loops w ! q) \<in> closed (chn w)))))"
proof -
  have A: "n \<noteq> nick w \<or> channels w chname = None \<longrightarrow>
       HandleJoin n chname w = w \<and> HandleKick n chname w = w"
    by (auto simp: HandleJoin_def HandleKick_def)
  have B: "loops (HandleJoin n chname w) ! p = fst (SetJoined (loops w ! p) (chn w)) \<and>
       chn (HandleJoin n chname w) = snd (SetJoined (loops w ! p) (chn w)) \<and>
       loops (HandleKick n chname w) ! p = fst (UnsetJoined (loops w ! p) (chn w)) \<and>
       chn (HandleKick n chname w) = snd (UnsetJoined (loops w ! p) (chn w)) \<and>
       HandleJoin n chname w =
         w\<lparr>loops := loops (HandleJoin n chname w), chn := chn (HandleJoin n chname w)\<rparr> \<and>
       HandleKick n chname w =
         w\<lparr>loops := loops (HandleKick n chname w), chn := chn (HandleKick n chname w)\<rparr> \<and>
       length (loops (HandleJoin n chname w)) = length (loops w) \<and>
       length (loops (HandleKick n chname w)) = length (loops w) \<and>
       (q \<noteq> p \<longrightarrow>
          loops (HandleJoin n chname w) ! q = loops w ! q \<and>
          loops (HandleKick n chname w) ! q = loops w ! q \<and>
          (q < length (loops w) \<longrightarrow>
             (joinDone (loops w ! q) \<in> closed (chn (HandleJoin n chname w)) \<longleftrightarrow>
                joinDone (loops w ! q) \<in> closed (chn w)) \<and>
             (joinDone (loops w ! q) \<in> closed (chn (HandleKick n chname w)) \<longleftrightarrow>
                joinDone (loops w ! q) \<in> closed (chn w))))"
    if n: "n = nick w" and c: "channels w chname = Some p"
  proof -
    have r: "p < length (loops w)"
      using assms(1) c by (simp add: registry_ok_def)
    have o: "joinDone (loops w ! q) \<noteq> joinDone (loops w ! p)"
      if "q < length (loops w)" "q \<noteq> p"
      using other_signal [OF assms(2) r that] .
    show ?thesis
      using r o
      by (simp add: n HandleJoin_present [OF c] HandleKick_present [OF c]
          closed_SetJoined closed_UnsetJoined)
  qed
  show ?thesis using A B by blast
qed

theorem handlers_route_to_own_loop_witness:
  "registry_ok two_world \<and> signals_ok two_world \<and> nick two_world = ''relay'' \<and>
   channels two_world ''#dev'' = Some 1 \<and> channels two_world ''#nope'' = None \<and>
   HandleJoin ''someone'' ''#dev'' two_world = two_world \<and>
   HandleKick ''relay'' ''#nope'' two_world = two_world \<and>
   joined (loops (HandleJoin ''relay'' ''#dev'' two_world) ! 1) \<and>
   closed (chn (HandleJoin ''relay'' ''#dev'' two_world)) = {2} \<and>
   loops (HandleJoin ''relay'' ''#dev'' two_world) ! 0 = loops two_world ! 0 \<and>
   joinDone (loops two_world ! 0) \<notin> closed (chn (HandleJoin ''relay'' ''#dev'' two_world)) \<and>
   HandleKick ''relay'' ''#dev'' two_world = two_world"
proof -
  note ok = example_worlds_ok(5,6)
  have a: "nick two_world = ''relay''" "channels two_world ''#dev'' = Some 1"
    "channels two_world ''#nope'' = None" "closed (chn two_world) = {}"
    "length (loops two_world) = 2" "joinDone (loops two_world ! 0) = 0"
    "joinDone (loops two_world ! 1) = 2" "\<not> joined (loops two_world ! 1)"
    by (simp_all add: two_world_eq started_world_eq)
  note t1 = handlers_route_to_own_loop [OF ok, of "''someone''" "''#dev''"]
  note t2 = handlers_route_to_own_loop [OF ok, of "''relay''" "''#nope''"]
  note t3 = handlers_route_to_own_loop [OF ok, of "''relay''" "''#dev''" 1 0]
  have s1: "HandleJoin ''someone'' ''#dev'' two_world = two_world"
    using t1 a by simp
  have s2: "HandleKick ''relay'' ''#nope'' two_world = two_world"
    using t2 a by simp
  have s30: "loops (HandleJoin ''relay'' ''#dev'' two_world) ! 1 =
       fst (SetJoined (loops two_world ! 1) (chn two_world)) \<and>
     chn (HandleJoin ''relay'' ''#dev'' two_world) =
       snd (SetJoined (loops two_world ! 1) (chn two_world)) \<and>
     loops (HandleJoin ''relay'' ''#dev'' two_world) ! 0 = loops two_world ! 0 \<and>
     (joinDone (loops two_world ! 0) \<in> closed (chn (HandleJoin ''relay'' ''#dev'' two_world)) \<longleftrightarrow>
        joinDone (loops two_world ! 0) \<in> closed (chn two_world)) \<and>
     loops (HandleKick ''relay'' ''#dev'' two_world) ! 1 =
       fst (UnsetJoined (loops two_world ! 1) (chn two_world)) \<and>
     chn (HandleKick ''relay'' ''#dev'' two_world) =
       snd (UnsetJoined (loops two_world ! 1) (chn two_world)) \<and>
     loops (HandleKick ''relay'' ''#dev'' two_world) ! 0 = loops two_world ! 0 \<and>
     length (loops (HandleKick ''relay'' ''#dev'' two_world)) = length (loops two_world) \<and>
     HandleKick ''relay'' ''#dev'' two_world =
       two_world\<lparr>loops := loops (HandleKick ''relay'' ''#dev'' two_world),
                 chn := chn (HandleKick ''relay'' ''#dev'' two_world)\<rparr>"
    using t3 a(1,2,5) by auto
  have s31: "joined (loops (HandleJoin ''relay'' ''#dev'' two_world) ! 1)"
    using s30 a by (simp add: SetJoined_def)
  have s32: "closed (chn (HandleJoin ''relay'' ''#dev'' two_world)) = {2}"
    using s30 a by (simp add: closed_SetJoined)
  have s33: "joinDone (loops two_world ! 0) \<notin> closed (chn (HandleJoin ''relay'' ''#dev'' two_world))"
    using s30 a by (simp add: closed_SetJoined)
  have k: "UnsetJoined (loops two_world ! 1) (chn two_world) = (loops two_world ! 1, chn two_world)"
    using a by (simp add: UnsetJoined_def)
  have kl: "loops (HandleKick ''relay'' ''#dev'' two_world) = loops two_world"
    using s30 k a(5) by (auto simp: list_eq_iff_nth_eq less_Suc_eq numeral_2_eq_2)
  have kc: "chn (HandleKick ''relay'' ''#dev'' two_world) = chn two_world"
    using s30 k by simp
  have ke: "HandleKick ''relay'' ''#dev'' two_world =
       two_world\<lparr>loops := loops (HandleKick ''relay'' ''#dev'' two_world),
                 chn := chn (HandleKick ''relay'' ''#dev'' two_world)\<rparr>"
    using s30 by blast
  have s4: "HandleKick ''relay'' ''#dev'' two_world = two_world"
    by (subst ke) (simp add: kl kc)
  show ?thesis
    using ok a(1,2,3) s1 s2 s31 s32 s33 s4 s30 by simp
qed

section \<open>Invariants of the reachable worlds\<close>

lemma count_update_nat:
  "i < length xs \<Longrightarrow>
   length (filter P (xs[i := y])) + (if P (xs ! i) then 1 else 0) =
     length (filter P xs) + (if P y then 1 else 0)"
proof (induction xs arbitrary: i)
  case Nil
  then show ?case by simp
next
  case (Cons x xs)
  show ?case
  proof (cases i)
    case 0
    then show ?thesis by simp
  next
    case (Suc j)
    then have "j < length xs" using Cons.prems by simp
    then show ?thesis using Cons.IH [of j] Suc by simp
  qed
qed

lemma count_update:
  "i < length xs \<Longrightarrow>
   int (length (filter P (xs[i := y]))) =
     int (length (filter P xs)) - (if P (xs ! i) then 1 else 0) + (if P y then 1 else 0)"
  using count_update_nat [of i xs P y] by (simp split: if_splits)

lemma ball_update: "P y \<Longrightarrow> \<forall>c \<in> set xs. P c \<Longrightarrow> \<forall>c \<in> set (xs[i := y]). P c"
  using set_update_subset_insert [of xs i y] by auto

lemma map_update_same: "f y = f (xs ! i) \<Longrightarrow> map f (xs[i := y]) = map f xs"
  by (cases "i < length xs") (simp_all add: map_update list_update_beyond list_update_same_conv)

lemma ctx_Err_cong:
  "cancelled w1 = cancelled w \<Longrightarrow> parentErr w1 = parentErr w \<Longrightarrow> ctx_Err w1 = ctx_Err w"
  by (simp add: ctx_Err_def fun_eq_iff)

lemma task_ok_cong:
  "ctx_Err w1 = ctx_Err w \<Longrightarrow> stopCtx w1 = stopCtx w \<Longrightarrow> task_ok w1 c = task_ok w c"
  by (simp add: task_ok_def split: option.splits)

lemma ctx_Err_updates:
  "ctx_Err (w\<lparr>loops := l\<rparr>) = ctx_Err w" "ctx_Err (w\<lparr>stopWg := g\<rparr>) = ctx_Err w"
  "ctx_Err (w\<lparr>sent := s\<rparr>) = ctx_Err w" "ctx_Err (w\<lparr>chn := h\<rparr>) = ctx_Err w"
  "ctx_Err (w\<lparr>channels := m\<rparr>) = ctx_Err w" "ctx_Err (w\<lparr>nextCtx := k\<rparr>) = ctx_Err w"
  "ctx_Err (w\<lparr>stopCtx := a\<rparr>) = ctx_Err w" "ctx_Err (w\<lparr>stopCtxCancel := b\<rparr>) = ctx_Err w"
  by (simp_all add: ctx_Err_def fun_eq_iff)

text \<open>A step of a goroutine keeps the invariants.\<close>

lemma set_pc_stopWg_nth:
  "stopWg (client_Join n pw w) = stopWg w"
  "p < length (loops w) \<Longrightarrow> pc (loops (wg_Done (set_pc p v w)) ! p) = v"
  "p < length (loops w) \<Longrightarrow> pc (loops (set_pc p v (client_Join n pw w)) ! p) = v"
  "stopWg (set_pc p v (client_Join n pw w)) = stopWg w"
  by (simp_all add: set_pc_def wg_Done_def client_Join_def)

lemma step_wg:
  assumes s: "monitor_step p ev w = Some w1"
  shows "stopWg w1 = stopWg w - (if running (pc (loops w1 ! p)) then 0 else 1)"
proof -
  note sh = monitor_step_shape [OF s]
  have r: "p < length (loops w)" using sh by simp
  show ?thesis
  proof (cases "ctx (loops w ! p)")
    case None
    then show ?thesis
      using s r sh
      by (cases "pc (loops w ! p)")
         (auto simp: monitor_step_def Let_def set_pc_simps wg_Done_simps set_pc_stopWg_nth
            split: if_splits)
  next
    case (Some x)
    show ?thesis
      using s r Some sh
      by (cases "pc (loops w ! p)")
         (auto simp: step_simps set_pc_simps wg_Done_simps set_pc_stopWg_nth split: if_splits)
  qed
qed

lemma step_nth:
  assumes s: "monitor_step p ev w = Some w1"
  shows "loops w1 ! p = (loops w ! p)\<lparr>pc := pc (loops w1 ! p)\<rparr>"
proof -
  note sh = monitor_step_shape [OF s]
  have "loops w1 = (loops w)[p := (loops w ! p)\<lparr>pc := pc (loops w1 ! p)\<rparr>]"
    using sh by (metis (no_types, lifting) world.select_convs(8) world.surjective world.update_convs(5,7,8))
  then show ?thesis using sh by (metis nth_list_update_eq)
qed

lemma step_task:
  assumes s: "monitor_step p ev w = Some w1" and t: "task_ok w (loops w ! p)"
  shows "task_ok w1 (loops w1 ! p)"
proof -
  note sh = monitor_step_shape [OF s]
  have r: "p < length (loops w)" and run: "running (pc (loops w ! p))" using sh by simp_all
  note fr = monitor_step_frame [OF s]
  have tc: "task_ok w1 (loops w1 ! p) = task_ok w (loops w1 ! p)"
    using task_ok_cong [OF fr(9) fr(6)] .
  define c where "c = loops w ! p"
  define v where "v = pc (loops w1 ! p)"
  have n: "task_ok w1 (loops w1 ! p) = task_ok w (c\<lparr>pc := v\<rparr>)"
    using step_nth [OF s] tc by (simp add: c_def v_def)
  have k: "ctx c = None \<or> ctx c = stopCtx w"
    using t run by (simp add: task_ok_def c_def)
  show ?thesis
  proof (cases "ctx c")
    case None
    then have "pc c = LoopHead"
      using t run by (auto simp: task_ok_def c_def)
    then have "v = Panicked"
      using s r None by (auto simp: step_nil c_def v_def set_pc_stopWg_nth split: if_splits)
    then show ?thesis
      using None unfolding n by (simp add: task_ok_def)
  next
    case (Some x)
    note e = step_exit_only_Canceled [OF s, of x]
    have "v \<noteq> Panicked \<and> v \<noteq> NotStarted \<and> (v = Exited \<longrightarrow> ctx_Err w x = Some Canceled)"
      using e Some by (simp add: c_def v_def)
    moreover have "stopCtx w = Some x"
      using k Some by auto
    ultimately show ?thesis
      using Some unfolding n by (simp add: task_ok_def)
  qed
qed


lemma step_loops:
  assumes s: "monitor_step p ev w = Some w1"
  shows "loops w1 = (loops w)[p := (loops w ! p)\<lparr>pc := pc (loops w1 ! p)\<rparr>]"
proof -
  note sh = monitor_step_shape [OF s]
  define v where "v = pc (loops w1 ! p)"
  have eq: "w1 = w\<lparr>loops := (loops w)[p := (loops w ! p)\<lparr>pc := v\<rparr>],
            stopWg := stopWg w1, sent := sent w1\<rparr>"
    using sh v_def by simp
  have "loops w1 = (loops w)[p := (loops w ! p)\<lparr>pc := v\<rparr>]"
    by (subst eq) simp
  then show ?thesis by (simp add: v_def)
qed

lemma sig_ok_pc: "sig_ok (c\<lparr>pc := v\<rparr>) h = sig_ok c h"
  by (simp add: sig_ok_def)

lemma step_registry_ok:
  "monitor_step p ev w = Some w1 \<Longrightarrow> registry_ok w \<Longrightarrow> registry_ok w1"
  using monitor_step_frame(1,4,13) [of p ev w w1] by (simp add: registry_ok_def)

lemma step_signals_ok:
  assumes s: "monitor_step p ev w = Some w1" and ok: "signals_ok w"
  shows "signals_ok w1"
proof -
  note fr = monitor_step_frame [OF s]
  obtain v where l: "loops w1 = (loops w)[p := (loops w ! p)\<lparr>pc := v\<rparr>]"
    using step_loops [OF s] by blast
  have r: "p < length (loops w)" using monitor_step_shape [OF s] by simp
  have "\<forall>c \<in> set ((loops w)[p := (loops w ! p)\<lparr>pc := v\<rparr>]). sig_ok c (chn w)"
    using ok r by (intro ball_update) (simp_all add: sig_ok_pc signals_ok_def)
  then have a: "\<forall>c \<in> set (loops w1). sig_ok c (chn w)"
    by (simp add: l)
  have "map joinDone ((loops w)[p := (loops w ! p)\<lparr>pc := v\<rparr>]) = map joinDone (loops w)"
    by (rule map_update_same) simp
  then have d: "map joinDone (loops w1) = map joinDone (loops w)"
    by (simp add: l)
  show ?thesis
    using a d ok by (simp add: signals_ok_def fr(5))
qed

lemma step_tasks_ok:
  assumes s: "monitor_step p ev w = Some w1" and ok: "tasks_ok w"
  shows "tasks_ok w1"
proof -
  note fr = monitor_step_frame [OF s]
  note sh = monitor_step_shape [OF s]
  have r: "p < length (loops w)" and run: "running (pc (loops w ! p))" using sh by simp_all
  define v where "v = pc (loops w1 ! p)"
  have l: "loops w1 = (loops w)[p := (loops w ! p)\<lparr>pc := v\<rparr>]"
    using step_loops [OF s] by (simp add: v_def)
  have tc: "task_ok w1 = task_ok w"
    using task_ok_cong [OF fr(9) fr(6)] by (simp add: fun_eq_iff)
  have tp: "task_ok w (loops w ! p)"
    using ok r by (simp add: tasks_ok_def)
  have "task_ok w1 (loops w1 ! p)"
    using step_task [OF s tp] .
  then have t1: "task_ok w ((loops w ! p)\<lparr>pc := v\<rparr>)"
    using r by (simp add: tc l)
  have "\<forall>c \<in> set ((loops w)[p := (loops w ! p)\<lparr>pc := v\<rparr>]). task_ok w c"
    using ok t1 by (intro ball_update) (simp_all add: tasks_ok_def)
  then have a: "\<forall>c \<in> set (loops w1). task_ok w1 c"
    by (simp add: l tc)
  have "int (length (filter (\<lambda>c. running (pc c)) ((loops w)[p := (loops w ! p)\<lparr>pc := v\<rparr>]))) =
       int (length (filter (\<lambda>c. running (pc c)) (loops w))) - 1 + (if running v then 1 else 0)"
    using count_update [OF r, of "\<lambda>c. running (pc c)" "(loops w ! p)\<lparr>pc := v\<rparr>"] run
    by simp
  then have c: "int (length (filter (\<lambda>c. running (pc c)) (loops w1))) =
       int (length (filter (\<lambda>c. running (pc c)) (loops w))) - 1 + (if running v then 1 else 0)"
    by (simp add: l)
  have g: "stopWg w1 = stopWg w - (if running v then 0 else 1)"
    using step_wg [OF s] by (simp add: v_def)
  show ?thesis
    using a c g ok by (simp add: tasks_ok_def fr(6,7))
qed

lemma step_scopes_ok:
  "monitor_step p ev w = Some w1 \<Longrightarrow> scopes_ok w \<Longrightarrow> scopes_ok w1"
  using monitor_step_frame(2,6,8) [of p ev w w1] by (simp add: scopes_ok_def)

lemma step_world_ok:
  "monitor_step p ev w = Some w1 \<Longrightarrow> world_ok w \<Longrightarrow> world_ok w1"
  by (simp add: world_ok_def step_registry_ok step_signals_ok step_tasks_ok step_scopes_ok)

lemma ctx_Err_parent_done:
  "ctx_Err w x = Some Canceled \<Longrightarrow> ctx_Err (parent_done k e w) x = Some Canceled"
  by (auto simp: ctx_Err_def parent_done_def)

lemma ctx_Err_cancel:
  "ctx_Err w y = Some Canceled \<Longrightarrow> ctx_Err (cancel x w) y = Some Canceled"
  by (auto simp: ctx_Err_def cancel_def)

lemma task_ok_mono:
  assumes "task_ok w c" and "stopCtx w1 = stopCtx w"
    and "\<And>x. ctx_Err w x = Some Canceled \<Longrightarrow> ctx_Err w1 x = Some Canceled"
  shows "task_ok w1 c"
  using assms by (auto simp: task_ok_def split: option.splits)

lemma parent_done_world_ok:
  assumes "world_ok w"
  shows "world_ok (parent_done k e w)"
proof -
  have f: "loops (parent_done k e w) = loops w" "channels (parent_done k e w) = channels w"
    "chn (parent_done k e w) = chn w" "stopWg (parent_done k e w) = stopWg w"
    "stopCtx (parent_done k e w) = stopCtx w" "stopCtxCancel (parent_done k e w) = stopCtxCancel w"
    "cancelled (parent_done k e w) = cancelled w" "nextCtx (parent_done k e w) = nextCtx w"
    by (simp_all add: parent_done_def)
  have t: "\<forall>c \<in> set (loops w). task_ok (parent_done k e w) c"
    using assms task_ok_mono [of w _ "parent_done k e w"] ctx_Err_parent_done f(5)
    by (auto simp: world_ok_def tasks_ok_def)
  show ?thesis
    using assms t by (simp add: world_ok_def registry_ok_def signals_ok_def tasks_ok_def scopes_ok_def f)
qed

lemma cancel_world_ok:
  assumes "world_ok w" and "stopCtx w = Some x"
  shows "world_ok (cancel x w)"
proof -
  have f: "loops (cancel x w) = loops w" "channels (cancel x w) = channels w"
    "chn (cancel x w) = chn w" "stopWg (cancel x w) = stopWg w"
    "stopCtx (cancel x w) = stopCtx w" "stopCtxCancel (cancel x w) = stopCtxCancel w"
    "nextCtx (cancel x w) = nextCtx w"
    by (simp_all add: cancel_def)
  have t: "\<forall>c \<in> set (loops w). task_ok (cancel x w) c"
    using assms(1) task_ok_mono [of w _ "cancel x w"] ctx_Err_cancel f(5)
    by (auto simp: world_ok_def tasks_ok_def)
  have s: "\<forall>k \<in> cancelled (cancel x w). k < nextCtx w"
    using assms by (auto simp: world_ok_def scopes_ok_def cancel_def)
  show ?thesis
    using assms t s by (simp add: world_ok_def registry_ok_def signals_ok_def tasks_ok_def scopes_ok_def f)
qed

lemma clear_world_ok:
  assumes "world_ok w"
  shows "world_ok (w\<lparr>channels := Map.empty\<rparr>)"
proof -
  have "task_ok (w\<lparr>channels := Map.empty\<rparr>) = task_ok w"
    using task_ok_cong [of "w\<lparr>channels := Map.empty\<rparr>" w]
    by (simp add: fun_eq_iff ctx_Err_updates)
  then show ?thesis
    using assms by (simp add: world_ok_def registry_ok_def signals_ok_def tasks_ok_def scopes_ok_def)
qed

lemma sig_ok_grow:
  "sig_ok c h \<Longrightarrow> closed h1 = closed h \<Longrightarrow> nextChan h \<le> nextChan h1 \<Longrightarrow> crashed h1 = crashed h \<Longrightarrow>
   sig_ok c h1"
  by (auto simp: sig_ok_def)

lemma unsafeAddChannel_world_ok:
  assumes ok: "world_ok w"
  shows "world_ok (snd (unsafeAddChannel ch w))"
proof -
  define c where "c = (fst (newChannelState ch (chn w)))\<lparr>pc := LoopHead, ctx := stopCtx w\<rparr>"
  define h where "h = snd (newChannelState ch (chn w))"
  define w1 where "w1 = snd (unsafeAddChannel ch w)"
  have e: "w1 = w\<lparr>chn := h, stopWg := stopWg w + 1, loops := loops w @ [c],
        channels := (channels w)(Name ch \<mapsto> length (loops w))\<rparr>"
    by (simp add: w1_def unsafeAddChannel_eq c_def h_def)
  have hf: "closed h = closed (chn w)" "nextChan h = Suc (Suc (nextChan (chn w)))"
    "crashed h = crashed (chn w)"
    by (simp_all add: h_def newChannelState_fields)
  have cf: "joinDone c = nextChan (chn w)" "\<not> joined c" "pc c = LoopHead" "ctx c = stopCtx w"
    by (simp_all add: c_def newChannelState_fields)
  have reg: "registry_ok w1"
    using ok by (auto simp: e world_ok_def registry_ok_def less_Suc_eq nth_append c_def
        newChannelState_fields)
  have so: "signals_ok w"
    using ok by (simp add: world_ok_def)
  have s1: "\<forall>d \<in> set (loops w). sig_ok d h"
    using so hf by (auto simp: signals_ok_def intro: sig_ok_grow)
  have s2: "sig_ok c h"
    using so hf cf by (auto simp: signals_ok_def sig_ok_def)
  have s3: "nextChan (chn w) \<notin> joinDone ` set (loops w)"
    using so by (auto simp: signals_ok_def sig_ok_def)
  have s4: "\<forall>a \<in> closed h. a < nextChan h"
    using so hf by (auto simp: signals_ok_def less_Suc_eq)
  have sig: "signals_ok w1"
    using so s1 s2 s3 s4 hf cf by (simp add: e signals_ok_def)
  have tc: "task_ok w1 = task_ok w"
    using task_ok_cong [of w1 w] by (simp add: fun_eq_iff e ctx_Err_updates)
  have tk: "tasks_ok w1"
    using ok cf by (simp add: world_ok_def tasks_ok_def tc) (simp add: e task_ok_def)
  have sc: "scopes_ok w1"
    using ok by (simp add: world_ok_def scopes_ok_def e)
  show ?thesis
    using reg sig tk sc by (simp add: world_ok_def w1_def)
qed

lemma addChannels_world_ok: "world_ok w \<Longrightarrow> world_ok (addChannels chs w)"
  by (induction chs arbitrary: w) (simp_all add: unsafeAddChannel_world_ok)

lemma task_ok_fields:
  "pc c1 = pc c \<Longrightarrow> ctx c1 = ctx c \<Longrightarrow> task_ok w c1 = task_ok w c"
  by (simp add: task_ok_def)

lemma SetJoined_fields:
  "pc (fst (SetJoined c h)) = pc c" "ctx (fst (SetJoined c h)) = ctx c"
  "channel (fst (SetJoined c h)) = channel c"
  "joinDone (fst (SetJoined c h)) = joinDone c"
  "nextChan (snd (SetJoined c h)) = nextChan h"
  by (simp_all add: SetJoined_def close_chan_def)

lemma UnsetJoined_fields:
  "channel (fst (UnsetJoined c h)) = channel c"
  "ctx (fst (UnsetJoined c h)) = ctx c"
  "running (pc (fst (UnsetJoined c h))) = running (pc c)"
  "pc (fst (UnsetJoined c h)) = (if joined c \<and> pc c = InUnsetWait then LoopHead else pc c)"
  "joinDone (fst (UnsetJoined c h)) = (if joined c then nextChan h else joinDone c)"
  "nextChan (snd (UnsetJoined c h)) = (if joined c then Suc (nextChan h) else nextChan h)"
  "crashed (snd (UnsetJoined c h)) = crashed h"
  by (simp_all add: UnsetJoined_def make_chan_def Let_def)

lemma task_ok_UnsetJoined: "task_ok w c \<Longrightarrow> task_ok w (fst (UnsetJoined c h))"
  by (auto simp: task_ok_def UnsetJoined_fields)

text \<open>An update of the state at p and of the heap, as the two handlers make it.\<close>

lemma handler_world_ok:
  assumes ok: "world_ok w" and r: "p < length (loops w)"
    and s: "sig_ok c1 h1"
    and t: "task_ok w c1" "running (pc c1) = running (pc (loops w ! p))"
    and o: "\<forall>d \<in> set (loops w). sig_ok d h1 \<or> d = loops w ! p"
    and di: "distinct (map joinDone ((loops w)[p := c1]))"
    and h: "\<forall>a \<in> closed h1. a < nextChan h1" "\<not> crashed h1"
    and nm: "channel c1 = channel (loops w ! p)"
  shows "world_ok (w\<lparr>loops := (loops w)[p := c1], chn := h1\<rparr>)"
proof -
  define w1 where "w1 = w\<lparr>loops := (loops w)[p := c1], chn := h1\<rparr>"
  have "Name (channel ((loops w)[p := c1] ! q)) = Name (channel (loops w ! q))" for q
    using nm r by (cases "q = p") simp_all
  then have reg: "registry_ok w1"
    using ok by (simp add: w1_def world_ok_def registry_ok_def)
  have "\<forall>d \<in> set ((loops w)[p := c1]). sig_ok d h1"
  proof
    fix d assume "d \<in> set ((loops w)[p := c1])"
    then obtain i where i: "i < length (loops w)" "d = (loops w)[p := c1] ! i"
      by (auto simp: in_set_conv_nth)
    show "sig_ok d h1"
    proof (cases "i = p")
      case True
      then show ?thesis using i s by simp
    next
      case False
      then have d: "d = loops w ! i" using i by simp
      have "loops w ! i \<noteq> loops w ! p"
        using ok i(1) r False nth_eq_iff_index_eq [of "map joinDone (loops w)" i p]
        by (auto simp: world_ok_def signals_ok_def)
      then show ?thesis using o i(1) d by auto
    qed
  qed
  then have sig: "signals_ok w1"
    using di h by (simp add: w1_def signals_ok_def)
  have tc: "task_ok w1 = task_ok w"
    using task_ok_cong [of w1 w] by (simp add: fun_eq_iff w1_def ctx_Err_updates)
  have "\<forall>d \<in> set ((loops w)[p := c1]). task_ok w d"
    using ok t(1) by (intro ball_update) (simp_all add: world_ok_def tasks_ok_def)
  moreover have "int (length (filter (\<lambda>c. running (pc c)) ((loops w)[p := c1]))) =
       int (length (filter (\<lambda>c. running (pc c)) (loops w)))"
    using count_update [OF r, of "\<lambda>c. running (pc c)" c1] t(2) by simp
  ultimately have tk: "tasks_ok w1"
    using ok by (simp add: w1_def world_ok_def tasks_ok_def tc [unfolded w1_def])
  have sc: "scopes_ok w1"
    using ok by (simp add: world_ok_def scopes_ok_def w1_def)
  show ?thesis
    using reg sig tk sc by (simp add: world_ok_def w1_def)
qed

lemma HandleJoin_world_ok:
  assumes ok: "world_ok w"
  shows "world_ok (HandleJoin n chname w)"
proof (cases "n = nick w \<and> channels w chname \<noteq> None")
  case False
  then show ?thesis using ok by (auto simp: HandleJoin_def)
next
  case True
  then obtain p where c: "channels w chname = Some p" and n: "n = nick w" by auto
  have r: "p < length (loops w)"
    using ok c by (simp add: world_ok_def registry_ok_def)
  define c0 where "c0 = loops w ! p"
  define c1 where "c1 = fst (SetJoined c0 (chn w))"
  define h1 where "h1 = snd (SetJoined c0 (chn w))"
  have so: "signals_ok w" and tko: "tasks_ok w" using ok by (simp_all add: world_ok_def)
  have s0: "sig_ok c0 (chn w)" using so r by (simp add: signals_ok_def c0_def)
  have s: "sig_ok c1 h1"
    using sig_ok_SetJoined [OF s0, of c1 h1] by (simp add: c1_def h1_def)
  have t: "task_ok w c1" "running (pc c1) = running (pc (loops w ! p))"
    using tko r task_ok_fields [of c1 c0 w]
    by (simp_all add: tasks_ok_def c1_def SetJoined_fields c0_def)
  have o: "\<forall>d \<in> set (loops w). sig_ok d h1 \<or> d = loops w ! p"
  proof
    fix d assume d: "d \<in> set (loops w)"
    then obtain i where i: "i < length (loops w)" "d = loops w ! i"
      by (auto simp: in_set_conv_nth)
    show "sig_ok d h1 \<or> d = loops w ! p"
    proof (cases "i = p")
      case True
      then show ?thesis using i by simp
    next
      case False
      have "joinDone d \<noteq> joinDone c0"
        using other_signal [OF so r i(1) False] i(2) by (simp add: c0_def)
      moreover have "sig_ok d (chn w)" using so d by (simp add: signals_ok_def)
      ultimately have "sig_ok d h1"
        by (auto simp: sig_ok_def h1_def SetJoined_def close_chan_def s0 [unfolded sig_ok_def])
      then show ?thesis by simp
    qed
  qed
  have "map joinDone ((loops w)[p := c1]) = map joinDone (loops w)"
    by (rule map_update_same) (simp add: c1_def SetJoined_fields c0_def)
  then have di: "distinct (map joinDone ((loops w)[p := c1]))"
    using so by (simp add: signals_ok_def)
  have h: "\<forall>a \<in> closed h1. a < nextChan h1" "\<not> crashed h1"
    using s by (simp_all add: sig_ok_def)
  have nm: "channel c1 = channel (loops w ! p)"
    by (simp add: c1_def SetJoined_fields c0_def)
  have "world_ok (w\<lparr>loops := (loops w)[p := c1], chn := h1\<rparr>)"
    using handler_world_ok [OF ok r s t o di h nm] .
  then show ?thesis
    by (simp add: n HandleJoin_present [OF c] c1_def h1_def c0_def)
qed


lemma HandleKick_world_ok:
  assumes ok: "world_ok w"
  shows "world_ok (HandleKick n chname w)"
proof (cases "n = nick w \<and> channels w chname \<noteq> None")
  case False
  then show ?thesis using ok by (auto simp: HandleKick_def)
next
  case True
  then obtain p where c: "channels w chname = Some p" and n: "n = nick w" by auto
  have r: "p < length (loops w)"
    using ok c by (simp add: world_ok_def registry_ok_def)
  define c0 where "c0 = loops w ! p"
  define c1 where "c1 = fst (UnsetJoined c0 (chn w))"
  define h1 where "h1 = snd (UnsetJoined c0 (chn w))"
  have so: "signals_ok w" and tko: "tasks_ok w" using ok by (simp_all add: world_ok_def)
  have s0: "sig_ok c0 (chn w)" using so r by (simp add: signals_ok_def c0_def)
  have s: "sig_ok c1 h1"
    using sig_ok_UnsetJoined [OF s0, of c1 h1] by (simp add: c1_def h1_def)
  have "task_ok w c0" using tko r by (simp add: tasks_ok_def c0_def)
  then have t: "task_ok w c1" "running (pc c1) = running (pc (loops w ! p))"
    using task_ok_UnsetJoined [of w c0 "chn w"]
    by (simp_all add: c1_def UnsetJoined_fields(3) c0_def)
  have hf: "closed h1 = closed (chn w)" "nextChan (chn w) \<le> nextChan h1"
    "crashed h1 = crashed (chn w)"
    by (simp_all add: h1_def closed_UnsetJoined UnsetJoined_fields)
  have o: "\<forall>d \<in> set (loops w). sig_ok d h1 \<or> d = loops w ! p"
    using so hf by (auto simp: signals_ok_def intro: sig_ok_grow)
  have di: "distinct (map joinDone ((loops w)[p := c1]))"
  proof (cases "joined c0")
    case False
    then have "c1 = c0" by (simp add: c1_def UnsetJoined_def)
    then show ?thesis using so by (simp add: c0_def signals_ok_def)
  next
    case True
    then have j: "joinDone c1 = nextChan (chn w)"
      by (simp add: c1_def UnsetJoined_fields)
    have "nextChan (chn w) \<notin> set (map joinDone (loops w))"
      using so by (auto simp: signals_ok_def sig_ok_def)
    then have "distinct ((map joinDone (loops w))[p := nextChan (chn w)])"
      using so by (intro distinct_list_update) (simp_all add: signals_ok_def)
    then show ?thesis by (simp add: map_update j)
  qed
  have h: "\<forall>a \<in> closed h1. a < nextChan h1" "\<not> crashed h1"
    using s by (simp_all add: sig_ok_def)
  have nm: "channel c1 = channel (loops w ! p)"
    by (simp add: c1_def UnsetJoined_fields c0_def)
  have "world_ok (w\<lparr>loops := (loops w)[p := c1], chn := h1\<rparr>)"
    using handler_world_ok [OF ok r s t o di h nm] .
  then show ?thesis
    by (simp add: n HandleKick_present [OF c] c1_def h1_def c0_def)
qed

lemma JoinChannel_world_ok: "world_ok w \<Longrightarrow> world_ok (snd (JoinChannel n w))"
  by (cases "channels w n")
     (simp_all add: JoinChannel_absent JoinChannel_present unsafeAddChannel_world_ok)

text \<open>Waiting on the wait group keeps them, and returns with the counter at zero.\<close>

lemma wg_Wait_world_ok: "world_ok w \<Longrightarrow> world_ok (snd (wg_Wait sched w))"
proof (induction sched arbitrary: w)
  case Nil
  then show ?case by simp
next
  case (Cons a sched)
  obtain p ev where a: "a = (p, ev)" by (cases a)
  show ?case
  proof (cases "monitor_step p ev w")
    case None
    then show ?thesis using Cons a by simp
  next
    case (Some w1)
    then have "world_ok w1" using step_world_ok Cons.prems by blast
    then show ?thesis using Cons.IH [of w1] Cons.prems a Some by simp
  qed
qed

lemma wg_Wait_returned: "fst (wg_Wait sched w) \<Longrightarrow> stopWg (snd (wg_Wait sched w)) = 0"
proof (induction sched arbitrary: w)
  case Nil
  then show ?case by simp
next
  case (Cons a sched)
  obtain p ev where a: "a = (p, ev)" by (cases a)
  show ?case
    using Cons a by (cases "monitor_step p ev w") (auto split: if_splits)
qed

lemma wg_Wait_frame:
  "channels (snd (wg_Wait sched w)) = channels w \<and>
   stopCtx (snd (wg_Wait sched w)) = stopCtx w \<and>
   stopCtxCancel (snd (wg_Wait sched w)) = stopCtxCancel w \<and>
   ctx_Err (snd (wg_Wait sched w)) = ctx_Err w \<and>
   chn (snd (wg_Wait sched w)) = chn w \<and>
   nextCtx (snd (wg_Wait sched w)) = nextCtx w \<and>
   cancelled (snd (wg_Wait sched w)) = cancelled w \<and>
   parentErr (snd (wg_Wait sched w)) = parentErr w \<and>
   length (loops (snd (wg_Wait sched w))) = length (loops w)"
proof (induction sched arbitrary: w)
  case Nil
  then show ?case by simp
next
  case (Cons a sched)
  obtain p ev where a: "a = (p, ev)" by (cases a)
  show ?case
  proof (cases "monitor_step p ev w")
    case None
    then show ?thesis using Cons a by simp
  next
    case (Some w1)
    note fr = monitor_step_frame [OF Some]
    show ?thesis
      using Cons.IH [of w1] a Some fr(1-9) by simp
  qed
qed

lemma no_running_tasks:
  assumes "tasks_ok w" and "stopWg w = 0"
  shows "\<forall>c \<in> set (loops w). \<not> running (pc c)"
proof -
  have "filter (\<lambda>c. running (pc c)) (loops w) = []"
    using assms by (simp add: tasks_ok_def)
  then show ?thesis by (simp add: filter_empty_conv)
qed

lemma stop_progress_world_ok:
  assumes "world_ok w"
  shows "world_ok (stop_progress sched w)"
proof (cases "stopCtxCancel w")
  case None
  then show ?thesis using assms by (simp add: stop_progress_def)
next
  case (Some x)
  then have "stopCtx w = Some x"
    using assms by (simp add: world_ok_def tasks_ok_def)
  then have "world_ok (cancel x w)"
    using cancel_world_ok assms by blast
  then show ?thesis
    using Some by (simp add: stop_progress_def wg_Wait_world_ok)
qed

lemma unsafeStop_cases:
  "unsafeStop sched w =
     (case stopCtxCancel w of
        None \<Rightarrow> Some w
      | Some x \<Rightarrow>
          if fst (wg_Wait sched (cancel x w))
          then Some ((snd (wg_Wait sched (cancel x w)))\<lparr>channels := Map.empty\<rparr>)
          else None)"
  by (simp add: unsafeStop_def split: option.splits prod.splits bool.splits)

lemma unsafeStop_world_ok:
  assumes "world_ok w" and "unsafeStop sched w = Some w1"
  shows "world_ok w1"
proof (cases "stopCtxCancel w")
  case None
  then show ?thesis using assms by (simp add: unsafeStop_cases)
next
  case (Some x)
  have "world_ok (stop_progress sched w)"
    using stop_progress_world_ok [OF assms(1)] .
  then have "world_ok (snd (wg_Wait sched (cancel x w)))"
    using Some by (simp add: stop_progress_def)
  then show ?thesis
    using assms(2) Some clear_world_ok by (auto simp: unsafeStop_cases split: if_splits)
qed

lemma unsafeStop_quiet:
  assumes "world_ok w" and "unsafeStop sched w = Some w1"
  shows "\<forall>c \<in> set (loops w1). running (pc c) \<longrightarrow> ctx c = None"
proof (cases "stopCtxCancel w")
  case None
  then have "w1 = w" "stopCtx w = None"
    using assms by (simp_all add: unsafeStop_cases world_ok_def tasks_ok_def)
  then show ?thesis
    using assms(1) by (auto simp: world_ok_def tasks_ok_def task_ok_def)
next
  case (Some x)
  have ok1: "world_ok w1" using unsafeStop_world_ok [OF assms] .
  have "stopWg w1 = 0"
    using assms(2) Some wg_Wait_returned [of sched "cancel x w"]
    by (auto simp: unsafeStop_cases split: if_splits)
  moreover have "tasks_ok w1" using ok1 by (simp add: world_ok_def)
  ultimately have "\<forall>c \<in> set (loops w1). \<not> running (pc c)"
    using no_running_tasks by blast
  then show ?thesis by simp
qed

lemma install_world_ok:
  assumes ok: "world_ok w" and q: "\<forall>c \<in> set (loops w). running (pc c) \<longrightarrow> ctx c = None"
  shows "world_ok (w\<lparr>nextCtx := Suc (nextCtx w), stopCtx := Some \<lparr>own = nextCtx w, parent = par\<rparr>,
           stopCtxCancel := Some \<lparr>own = nextCtx w, parent = par\<rparr>\<rparr>)"
proof -
  define w1 where "w1 = w\<lparr>nextCtx := Suc (nextCtx w), stopCtx := Some \<lparr>own = nextCtx w, parent = par\<rparr>,
           stopCtxCancel := Some \<lparr>own = nextCtx w, parent = par\<rparr>\<rparr>"
  have e: "ctx_Err w1 = ctx_Err w"
    by (simp add: w1_def ctx_Err_updates)
  have "task_ok w1 c" if "c \<in> set (loops w)" for c
  proof -
    have "task_ok w c" using ok that by (simp add: world_ok_def tasks_ok_def)
    moreover have "running (pc c) \<longrightarrow> ctx c = None" using q that by simp
    ultimately show ?thesis
      by (auto simp: task_ok_def e split: option.splits)
  qed
  then have tk: "tasks_ok w1"
    using ok by (simp add: world_ok_def tasks_ok_def) (simp add: w1_def)
  have "registry_ok w1" "signals_ok w1" "scopes_ok w1"
    using ok by (auto simp: world_ok_def registry_ok_def signals_ok_def scopes_ok_def w1_def less_Suc_eq)
  then show ?thesis using tk by (simp add: world_ok_def w1_def)
qed

lemma Start_cases:
  "Start sched par w =
     (case unsafeStop sched w of
        None \<Rightarrow> None
      | Some w1 \<Rightarrow>
          Some (addChannels (preJoinChannels w1)
            (w1\<lparr>nextCtx := Suc (nextCtx w1), stopCtx := Some \<lparr>own = nextCtx w1, parent = par\<rparr>,
               stopCtxCancel := Some \<lparr>own = nextCtx w1, parent = par\<rparr>\<rparr>)))"
  by (simp add: Start_def WithCancel_def split: option.splits)

lemma Start_world_ok:
  assumes "world_ok w" and "Start sched par w = Some w2"
  shows "world_ok w2"
proof -
  obtain w1 where u: "unsafeStop sched w = Some w1"
    using assms(2) by (auto simp: Start_cases split: option.splits)
  have "world_ok w1" using unsafeStop_world_ok [OF assms(1) u] .
  then have "world_ok (w1\<lparr>nextCtx := Suc (nextCtx w1), stopCtx := Some \<lparr>own = nextCtx w1, parent = par\<rparr>,
               stopCtxCancel := Some \<lparr>own = nextCtx w1, parent = par\<rparr>\<rparr>)"
    using install_world_ok unsafeStop_quiet [OF assms(1) u] by blast
  then have "world_ok (addChannels (preJoinChannels w1)
      (w1\<lparr>nextCtx := Suc (nextCtx w1), stopCtx := Some \<lparr>own = nextCtx w1, parent = par\<rparr>,
               stopCtxCancel := Some \<lparr>own = nextCtx w1, parent = par\<rparr>\<rparr>))"
    by (rule addChannels_world_ok)
  then show ?thesis
    using assms(2) u by (simp add: Start_cases)
qed

lemma exec_world_ok: "world_ok w \<Longrightarrow> world_ok (exec a w)"
proof (cases a)
  case (CallStart sched par)
  assume "world_ok w"
  then show ?thesis
    using CallStart Start_world_ok stop_progress_world_ok
    by (cases "Start sched par w") auto
next
  case (CallStop sched)
  assume "world_ok w"
  then show ?thesis
    using CallStop unsafeStop_world_ok stop_progress_world_ok
    by (cases "Stop sched w") (auto simp: Stop_def)
next
  case (Step p ev)
  assume "world_ok w"
  then show ?thesis
    using Step step_world_ok by (cases "monitor_step p ev w") auto
qed (simp_all add: JoinChannel_world_ok HandleJoin_world_ok HandleKick_world_ok parent_done_world_ok)

lemma execs_world_ok: "world_ok w \<Longrightarrow> world_ok (execs as w)"
  by (induction as arbitrary: w) (simp_all add: exec_world_ok)

lemma NewChannelReconciler_world_ok: "world_ok (NewChannelReconciler config me pe)"
  by (simp add: NewChannelReconciler_def world_ok_def registry_ok_def signals_ok_def
      tasks_ok_def scopes_ok_def)

lemma reachable_world_ok: "world_ok (execs as (NewChannelReconciler config me pe))"
  by (simp add: execs_world_ok NewChannelReconciler_world_ok)

section \<open>Stop\<close>

lemma wait_or_run:
  "\<not> fst (wg_Wait sched w) \<Longrightarrow>
   snd (wg_Wait sched w) = execs (as_steps sched) w \<and> stopWg (execs (as_steps sched) w) \<noteq> 0"
proof (induction sched arbitrary: w)
  case Nil
  then show ?case by simp
next
  case (Cons a sched)
  obtain p ev where a: "a = (p, ev)" by (cases a)
  show ?case
    using Cons a by (cases "monitor_step p ev w") (auto split: if_splits)
qed

lemma as_steps_append: "as_steps (s1 @ s2) = as_steps s1 @ as_steps s2"
  by (induction s1 rule: as_steps.induct) simp_all

lemma execs_append: "execs (as @ bs) w = execs bs (execs as w)"
  by (induction as arbitrary: w) simp_all

lemma exec_Step_length: "length (loops (exec (Step p ev) w)) = length (loops w)"
  by (cases "monitor_step p ev w") (simp_all add: monitor_step_frame(1))

lemma exec_Step_stopCtx: "stopCtx (exec (Step p ev) w) = stopCtx w"
  by (cases "monitor_step p ev w") (simp_all add: monitor_step_frame(6))

lemma exec_Step_ctx_Err: "ctx_Err (exec (Step p ev) w) = ctx_Err w"
  by (cases "monitor_step p ev w") (simp_all add: monitor_step_frame(9))

lemma exec_Step_ctx: "ctx (loops (exec (Step p ev) w) ! q) = ctx (loops w ! q)"
  by (cases "monitor_step p ev w") (simp_all add: monitor_step_frame(10))

lemma exec_Step_other: "q \<noteq> p \<Longrightarrow> loops (exec (Step p ev) w) ! q = loops w ! q"
  by (cases "monitor_step p ev w") (simp_all add: monitor_step_frame(14))

lemmas exec_Step_frame = exec_Step_length exec_Step_stopCtx exec_Step_ctx_Err exec_Step_ctx
  exec_Step_other

lemma drain_task:
  assumes r: "p < length (loops w)"
    and c: "running (pc (loops w ! p)) \<Longrightarrow>
            ctx (loops w ! p) = None \<and> pc (loops w ! p) = LoopHead \<or>
            (\<exists>x. ctx (loops w ! p) = Some x \<and> ctx_Err w x = Some Canceled)"
  shows "\<not> running (pc (loops (execs (as_steps (drain p)) w) ! p))"
proof (cases "running (pc (loops w ! p))")
  case False
  then show ?thesis
    by (simp add: drain_def step_stopped)
next
  case True
  show ?thesis
  proof (cases "ctx (loops w ! p)")
    case None
    then have "pc (loops w ! p) = LoopHead" using c [OF True] by auto
    then show ?thesis
      using r None
      by (simp add: drain_def step_nil step_stopped set_pc_stopWg_nth)
  next
    case (Some x)
    then have e: "ctx_Err w x = Some Canceled" using c [OF True] by auto
    show ?thesis
      using r Some e True
      by (cases "pc (loops w ! p)")
         (simp_all add: drain_def step_simps step_stopped set_pc_simps set_pc_ctx wg_Done_simps
            client_Join_simps set_pc_stopWg_nth)
  qed
qed


lemma execs_steps_frame:
  "length (loops (execs (as_steps sched) w)) = length (loops w) \<and>
   stopCtx (execs (as_steps sched) w) = stopCtx w \<and>
   ctx_Err (execs (as_steps sched) w) = ctx_Err w \<and>
   (q \<notin> fst ` set sched \<longrightarrow> loops (execs (as_steps sched) w) ! q = loops w ! q)"
proof (induction sched arbitrary: w)
  case Nil
  then show ?case by simp
next
  case (Cons a sched)
  obtain p ev where a: "a = (p, ev)" by (cases a)
  show ?case
    using Cons [of "exec (Step p ev) w"] a by (auto simp: exec_Step_frame simp del: exec.simps)
qed

lemma drain_only: "fst ` set (drain p) = {p}"
  by (simp add: drain_def)

lemma drain_all_done:
  assumes ok: "world_ok w" and x: "stopCtx w = Some x" and e: "ctx_Err w x = Some Canceled"
  shows "n \<le> length (loops w) \<Longrightarrow>
    \<forall>i<n. \<not> running (pc (loops (execs (as_steps (drain_all n)) w) ! i))"
proof (induction n)
  case 0
  then show ?case by simp
next
  case (Suc n)
  define w1 where "w1 = execs (as_steps (drain_all n)) w"
  define w2 where "w2 = execs (as_steps (drain n)) w1"
  have w2: "execs (as_steps (drain_all (Suc n))) w = w2"
    by (simp add: w2_def w1_def as_steps_append execs_append)
  have ok1: "world_ok w1" using ok by (simp add: w1_def execs_world_ok)
  note f1 = execs_steps_frame [of "drain_all n" w n, folded w1_def]
  have r: "n < length (loops w1)" using Suc.prems f1 by simp
  have x1: "stopCtx w1 = Some x" and e1: "ctx_Err w1 x = Some Canceled"
    using f1 x e by simp_all
  have t: "task_ok w1 (loops w1 ! n)"
    using ok1 r by (simp add: world_ok_def tasks_ok_def)
  have c: "ctx (loops w1 ! n) = None \<and> pc (loops w1 ! n) = LoopHead \<or>
            (\<exists>y. ctx (loops w1 ! n) = Some y \<and> ctx_Err w1 y = Some Canceled)"
    if "running (pc (loops w1 ! n))"
    using t that x1 e1 by (cases "pc (loops w1 ! n)") (auto simp: task_ok_def)
  have a: "\<not> running (pc (loops w2 ! n))"
    unfolding w2_def using drain_task [OF r c] by blast
  have b: "\<not> running (pc (loops w2 ! i))" if "i < n" for i
  proof -
    have "loops w2 ! i = loops w1 ! i"
      using execs_steps_frame [of "drain n" w1 i] that by (simp add: w2_def drain_only)
    moreover have "\<not> running (pc (loops w1 ! i))"
      using Suc that by (simp add: w1_def)
    ultimately show ?thesis by simp
  qed
  show ?case
    unfolding w2 using a b by (auto simp: less_Suc_eq)
qed

lemma cancel_Canceled:
  "parentErr w (parent x) \<noteq> Some DeadlineExceeded \<Longrightarrow> ctx_Err (cancel x w) x = Some Canceled"
  by (cases "parentErr w (parent x)"; cases "the (parentErr w (parent x))")
     (auto simp: cancel_def ctx_Err_def)

lemma cancel_done: "ctx_Err (cancel x w) x \<noteq> None"
  by (auto simp: cancel_def ctx_Err_def)

lemma cancel_frame:
  "loops (cancel x w) = loops w" "stopCtx (cancel x w) = stopCtx w"
  "stopCtxCancel (cancel x w) = stopCtxCancel w" "channels (cancel x w) = channels w"
  "chn (cancel x w) = chn w" "stopWg (cancel x w) = stopWg w" "sent (cancel x w) = sent w"
  "nextCtx (cancel x w) = nextCtx w" "parentErr (cancel x w) = parentErr w"
  "preJoinChannels (cancel x w) = preJoinChannels w"
  by (simp_all add: cancel_def)

lemma wg_Wait_drains:
  assumes ok: "world_ok w" and x: "stopCtx w = Some x" and e: "ctx_Err w x = Some Canceled"
  shows "fst (wg_Wait (drain_all (length (loops w))) w)"
proof (rule ccontr)
  assume n: "\<not> fst (wg_Wait (drain_all (length (loops w))) w)"
  define w1 where "w1 = execs (as_steps (drain_all (length (loops w)))) w"
  have nz: "stopWg w1 \<noteq> 0"
    using wait_or_run [OF n] by (simp add: w1_def)
  have ok1: "world_ok w1" using ok by (simp add: w1_def execs_world_ok)
  have len: "length (loops w1) = length (loops w)"
    using execs_steps_frame [of "drain_all (length (loops w))" w 0] by (simp add: w1_def)
  have "\<forall>i<length (loops w1). \<not> running (pc (loops w1 ! i))"
    using drain_all_done [OF ok x e, of "length (loops w)"] len by (simp add: w1_def)
  then have "filter (\<lambda>c. running (pc c)) (loops w1) = []"
    by (auto simp: filter_empty_conv in_set_conv_nth)
  then have "stopWg w1 = 0"
    using ok1 by (simp add: world_ok_def tasks_ok_def)
  then show False using nz by simp
qed

lemma some_running:
  assumes "tasks_ok w" and "stopWg w \<noteq> 0"
  shows "\<exists>c \<in> set (loops w). running (pc c)"
proof -
  have "filter (\<lambda>c. running (pc c)) (loops w) \<noteq> []"
    using assms by (auto simp: tasks_ok_def)
  then show ?thesis by (simp add: filter_empty_conv)
qed

text \<open>
  Claim C6.  In a world that satisfies the invariants: \<open>Stop\<close> on a reconciler that was
  never started returns at once with the world unchanged.  Otherwise its first act is the
  cancel function, after which the context is done; it returns exactly when the wait group
  has come to zero under the schedule, and what it returns then is the world the
  goroutines have made with the registry emptied: no goroutine is running any more, and no
  channel state was lost or made.  As long as a goroutine runs, the call has not returned
  and the registry is still as it was.  And it does return: unless the parent context ended
  by its deadline, the schedule that lets every goroutine see its context done brings the
  wait group to zero.
\<close>

theorem Stop_cancels_waits_clears:
  assumes ok: "world_ok w"
  shows
   "(stopCtxCancel w = None \<longrightarrow> Stop sched w = Some w) \<and>
    (stopCtxCancel w = Some x \<longrightarrow>
       ctx_Err (cancel x w) x \<noteq> None \<and>
       (Stop sched w = Some w1 \<longrightarrow>
          w1 = (snd (wg_Wait sched (cancel x w)))\<lparr>channels := Map.empty\<rparr> \<and>
          channels w1 = Map.empty \<and> ctx_Err w1 x \<noteq> None \<and> stopWg w1 = 0 \<and>
          (\<forall>c \<in> set (loops w1). \<not> running (pc c)) \<and>
          length (loops w1) = length (loops w)) \<and>
       (Stop sched w = None \<longrightarrow>
          (\<exists>c \<in> set (loops (stop_progress sched w)). running (pc c)) \<and>
          channels (stop_progress sched w) = channels w) \<and>
       (parentErr w (parent x) \<noteq> Some DeadlineExceeded \<longrightarrow>
          Stop (drain_all (length (loops w))) w \<noteq> None))"
proof -
  have A: "stopCtxCancel w = None \<longrightarrow> Stop sched w = Some w"
    by (simp add: Stop_def unsafeStop_cases)
  have B: "ctx_Err (cancel x w) x \<noteq> None \<and>
       (Stop sched w = Some w1 \<longrightarrow>
          w1 = (snd (wg_Wait sched (cancel x w)))\<lparr>channels := Map.empty\<rparr> \<and>
          channels w1 = Map.empty \<and> ctx_Err w1 x \<noteq> None \<and> stopWg w1 = 0 \<and>
          (\<forall>c \<in> set (loops w1). \<not> running (pc c)) \<and>
          length (loops w1) = length (loops w)) \<and>
       (Stop sched w = None \<longrightarrow>
          (\<exists>c \<in> set (loops (stop_progress sched w)). running (pc c)) \<and>
          channels (stop_progress sched w) = channels w) \<and>
       (parentErr w (parent x) \<noteq> Some DeadlineExceeded \<longrightarrow>
          Stop (drain_all (length (loops w))) w \<noteq> None)"
    if c: "stopCtxCancel w = Some x"
  proof -
    have sx: "stopCtx w = Some x"
      using ok c by (simp add: world_ok_def tasks_ok_def)
    have ok0: "world_ok (cancel x w)"
      using cancel_world_ok [OF ok sx] .
    define w2 where "w2 = snd (wg_Wait sched (cancel x w))"
    have sp: "stop_progress sched w = w2"
      using c by (simp add: stop_progress_def w2_def)
    have ok2: "world_ok w2"
      using wg_Wait_world_ok [OF ok0] by (simp add: w2_def)
    note fr = wg_Wait_frame [of sched "cancel x w", folded w2_def]
    have b1: "ctx_Err (cancel x w) x \<noteq> None"
      by (rule cancel_done)
    have b2: "w1 = w2\<lparr>channels := Map.empty\<rparr> \<and>
          channels w1 = Map.empty \<and> ctx_Err w1 x \<noteq> None \<and> stopWg w1 = 0 \<and>
          (\<forall>c \<in> set (loops w1). \<not> running (pc c)) \<and>
          length (loops w1) = length (loops w)"
      if s: "Stop sched w = Some w1"
    proof -
      have r: "fst (wg_Wait sched (cancel x w))" and e: "w1 = w2\<lparr>channels := Map.empty\<rparr>"
        using s c by (auto simp: Stop_def unsafeStop_cases w2_def split: if_splits)
      have z: "stopWg w2 = 0"
        using wg_Wait_returned [OF r] by (simp add: w2_def)
      have t2: "tasks_ok w2" using ok2 by (simp add: world_ok_def)
      have q: "\<forall>c \<in> set (loops w2). \<not> running (pc c)"
        using no_running_tasks [OF t2 z] .
      have d: "ctx_Err w2 x \<noteq> None"
        using fr b1 by simp
      show ?thesis
        using e z q d fr by (simp add: ctx_Err_updates cancel_frame)
    qed
    have b3: "(\<exists>c \<in> set (loops (stop_progress sched w)). running (pc c)) \<and>
          channels (stop_progress sched w) = channels w"
      if s: "Stop sched w = None"
    proof -
      have "\<not> fst (wg_Wait sched (cancel x w))"
        using s c by (auto simp: Stop_def unsafeStop_cases split: if_splits)
      then have "stopWg w2 \<noteq> 0"
        using wait_or_run [of sched "cancel x w"] by (simp add: w2_def)
      moreover have "tasks_ok w2" using ok2 by (simp add: world_ok_def)
      ultimately have "\<exists>c \<in> set (loops w2). running (pc c)"
        using some_running by blast
      then show ?thesis
        using fr by (simp add: sp cancel_frame)
    qed
    have b4: "Stop (drain_all (length (loops w))) w \<noteq> None"
      if d: "parentErr w (parent x) \<noteq> Some DeadlineExceeded"
    proof -
      have e: "ctx_Err (cancel x w) x = Some Canceled"
        using cancel_Canceled [OF d] .
      have s0: "stopCtx (cancel x w) = Some x"
        using sx by (simp add: cancel_frame)
      have "fst (wg_Wait (drain_all (length (loops (cancel x w)))) (cancel x w))"
        using wg_Wait_drains [OF ok0 s0 e] .
      then show ?thesis
        using c by (simp add: Stop_def unsafeStop_cases cancel_frame)
    qed
    show ?thesis
      using b1 b2 b3 b4 by (simp add: w2_def)
  qed
  show ?thesis using A B by blast
qed

lemma drain_all_one: "drain_all 1 = drain 0"
  by simp

lemma stopped_world_eq:
  "Stop (drain 0) started_world =
     Some (started_world\<lparr>channels := Map.empty, stopWg := 0, cancelled := {0},
        loops := [(loops started_world ! 0)\<lparr>pc := Exited\<rparr>]\<rparr>)"
  by (simp add: Stop_def unsafeStop_cases cancel_def ctx_Err_def drain_def
      monitor_step_def Let_def set_pc_def wg_Done_def started_world_eq)


lemma example_worlds_reachable:
  "world_ok fresh_world" "world_ok started_world"
proof -
  show "world_ok fresh_world"
    using reachable_world_ok [of "[]" "[ops_channel]" "''relay''" "\<lambda>k. None"]
    by (simp add: fresh_world_def)
  show "world_ok started_world"
    using reachable_world_ok [of "[CallStart [] 0]" "[ops_channel]" "''relay''" "\<lambda>k. None"]
    by (simp add: started_world_def fresh_world_def)
qed

lemma stopped_world_eq2:
  "stopped_world = started_world\<lparr>channels := Map.empty, stopWg := 0, cancelled := {0},
        loops := [(loops started_world ! 0)\<lparr>pc := Exited\<rparr>]\<rparr>"
  by (simp add: stopped_world_def stopped_world_eq)

theorem Stop_cancels_waits_clears_witness:
  "world_ok fresh_world \<and> stopCtxCancel fresh_world = None \<and>
   Stop [] fresh_world = Some fresh_world \<and>
   world_ok started_world \<and> stopCtxCancel started_world = Some \<lparr>own = 0, parent = 0\<rparr> \<and>
   parentErr started_world 0 = None \<and>
   Stop [] started_world = None \<and>
   running (pc (loops (stop_progress [] started_world) ! 0)) \<and>
   Stop (drain_all 1) started_world = Some stopped_world \<and>
   channels stopped_world = Map.empty \<and> stopWg stopped_world = 0 \<and>
   pc (loops stopped_world ! 0) = Exited \<and>
   ctx_Err stopped_world \<lparr>own = 0, parent = 0\<rparr> = Some Canceled"
proof -
  define x where "x = \<lparr>own = 0, parent = 0\<rparr>"
  note ok = example_worlds_reachable
  have f: "stopCtxCancel fresh_world = None"
    by (simp add: fresh_world_def NewChannelReconciler_def)
  have g: "stopCtxCancel started_world = Some x" "parentErr started_world (parent x) = None"
    "length (loops started_world) = 1"
    by (simp_all add: started_world_eq x_def)
  have s: "Stop (drain_all 1) started_world = Some stopped_world"
    unfolding drain_all_one by (simp add: stopped_world_eq stopped_world_eq2)
  note t0 = Stop_cancels_waits_clears [OF ok(1), of "[]"]
  note t1 = Stop_cancels_waits_clears [OF ok(2), of "drain_all 1" x stopped_world]
  have a: "Stop [] fresh_world = Some fresh_world"
    using t0 f by simp
  have b: "channels stopped_world = Map.empty \<and> stopWg stopped_world = 0 \<and>
      (\<forall>c \<in> set (loops stopped_world). \<not> running (pc c))"
    using t1 g s by simp
  have n: "Stop [] started_world = None"
    by (simp add: Stop_def unsafeStop_cases cancel_def ctx_Err_def started_world_eq)
  have r: "running (pc (loops (stop_progress [] started_world) ! 0))"
    by (simp add: stop_progress_def cancel_def ctx_Err_def started_world_eq)
  have e: "pc (loops stopped_world ! 0) = Exited"
    "ctx_Err stopped_world \<lparr>own = 0, parent = 0\<rparr> = Some Canceled"
    by (simp_all add: stopped_world_eq2 started_world_eq ctx_Err_def)
  show ?thesis
    using ok f g a b n r e s by (simp add: x_def)
qed

section \<open>A run through Stop and JoinChannel\<close>

lemma stopped_joined_eq:
  "snd (JoinChannel ''#dev'' stopped_world) =
     started_world\<lparr>channels := [''#dev'' \<mapsto> 1], stopWg := 1, cancelled := {0},
     loops := [(loops started_world ! 0)\<lparr>pc := Exited\<rparr>,
       \<lparr>channel = \<lparr>Name = ''#dev'', Password = []\<rparr>,
         delayer = \<lparr>maxDelay = 300, resetAfter = 1800, initialDelay = 1000000000\<rparr>,
         joinDone = 2, joined = False, joinUnsetSignal = 3, pc = LoopHead,
         ctx = Some \<lparr>own = 0, parent = 0\<rparr>\<rparr>],
     chn := \<lparr>closed = {}, nextChan = 4, crashed = False\<rparr>\<rparr>"
  by (simp add: stopped_world_eq2 JoinChannel_def unsafeAddChannel_eq newChannelState_def
      make_chan_def NewDelayer_def ircJoinMaxBackoffSecs_def ircJoinBackoffResetSecs_def
      time_Second_def JoinDone_def started_world_eq)

lemma rejoined_world_eq:
  "rejoined_world = started_world\<lparr>channels := [''#dev'' \<mapsto> 1], stopWg := 0, cancelled := {0},
     loops := [(loops started_world ! 0)\<lparr>pc := Exited\<rparr>,
       \<lparr>channel = \<lparr>Name = ''#dev'', Password = []\<rparr>,
         delayer = \<lparr>maxDelay = 300, resetAfter = 1800, initialDelay = 1000000000\<rparr>,
         joinDone = 2, joined = False, joinUnsetSignal = 3, pc = Exited,
         ctx = Some \<lparr>own = 0, parent = 0\<rparr>\<rparr>],
     chn := \<lparr>closed = {}, nextChan = 4, crashed = False\<rparr>\<rparr>"
proof -
  define w2 where "w2 = snd (JoinChannel ''#dev'' stopped_world)"
  have a: "rejoined_world = exec (Step 1 Run) w2"
    unfolding rejoined_world_def w2_def stopped_world_def
    by (simp only: execs.simps exec.simps(3))
  have f: "1 < length (loops w2)" "pc (loops w2 ! 1) = LoopHead"
    "ctx (loops w2 ! 1) = Some \<lparr>own = 0, parent = 0\<rparr>"
    "ctx_Err w2 \<lparr>own = 0, parent = 0\<rparr> = Some Canceled"
    by (simp_all add: w2_def stopped_joined_eq ctx_Err_def)
  have "monitor_step 1 Run w2 = Some (wg_Done (set_pc 1 Exited w2))"
    using f by (simp add: step_LoopHead)
  then have "rejoined_world = wg_Done (set_pc 1 Exited w2)"
    using a by simp
  then show ?thesis
    by (simp add: w2_def stopped_joined_eq wg_Done_def set_pc_def started_world_eq)
qed

lemma rejoined_world_reachable:
  "rejoined_world =
     execs [CallStart [] 0, CallStop (drain_all 1), CallJoinChannel ''#dev'', Step 1 Run]
       (NewChannelReconciler [ops_channel] ''relay'' (\<lambda>k. None))"
  by (simp add: rejoined_world_def started_world_def fresh_world_def del: exec.simps)

section \<open>JoinChannel without a live context\<close>









section \<open>Start\<close>

lemma unsafeAddChannel_fields:
  "loops (snd (unsafeAddChannel ch w)) =
     loops w @ [(fst (newChannelState ch (chn w)))\<lparr>pc := LoopHead, ctx := stopCtx w\<rparr>]"
  "channels (snd (unsafeAddChannel ch w)) = (channels w)(Name ch \<mapsto> length (loops w))"
  "stopCtx (snd (unsafeAddChannel ch w)) = stopCtx w"
  "stopCtxCancel (snd (unsafeAddChannel ch w)) = stopCtxCancel w"
  "stopWg (snd (unsafeAddChannel ch w)) = stopWg w + 1"
  "cancelled (snd (unsafeAddChannel ch w)) = cancelled w"
  "parentErr (snd (unsafeAddChannel ch w)) = parentErr w"
  "nextCtx (snd (unsafeAddChannel ch w)) = nextCtx w"
  by (simp_all add: unsafeAddChannel_eq)

lemma addChannels_frame:
  "stopCtx (addChannels chs w) = stopCtx w \<and>
   stopCtxCancel (addChannels chs w) = stopCtxCancel w \<and>
   cancelled (addChannels chs w) = cancelled w \<and>
   parentErr (addChannels chs w) = parentErr w \<and>
   nextCtx (addChannels chs w) = nextCtx w \<and>
   stopWg (addChannels chs w) = stopWg w + int (length chs) \<and>
   length (loops (addChannels chs w)) = length (loops w) + length chs"
  by (induction chs arbitrary: w) (simp_all add: unsafeAddChannel_fields)

lemma addChannels_old:
  "i < length (loops w) \<Longrightarrow> loops (addChannels chs w) ! i = loops w ! i"
proof (induction chs arbitrary: w)
  case Nil
  then show ?case by simp
next
  case (Cons ch chs)
  have "i < length (loops (snd (unsafeAddChannel ch w)))"
    using Cons.prems by (simp add: unsafeAddChannel_fields)
  then have "loops (addChannels chs (snd (unsafeAddChannel ch w))) ! i =
      loops (snd (unsafeAddChannel ch w)) ! i"
    by (rule Cons.IH)
  then show ?case
    using Cons.prems by (simp add: unsafeAddChannel_fields nth_append)
qed


lemma addChannels_channels_other:
  "n \<notin> Name ` set chs \<Longrightarrow> channels (addChannels chs w) n = channels w n"
  by (induction chs arbitrary: w) (auto simp: unsafeAddChannel_fields)



lemma monitor_step_preJoin:
  assumes "monitor_step p ev w = Some w1"
  shows "preJoinChannels w1 = preJoinChannels w"
proof -
  note sh = monitor_step_shape [OF assms]
  define v where "v = pc (loops w1 ! p)"
  have eq: "w1 = w\<lparr>loops := (loops w)[p := (loops w ! p)\<lparr>pc := v\<rparr>],
            stopWg := stopWg w1, sent := sent w1\<rparr>"
    using sh v_def by simp
  show ?thesis by (subst eq) simp
qed

lemma wg_Wait_preJoin: "preJoinChannels (snd (wg_Wait sched w)) = preJoinChannels w"
proof (induction sched arbitrary: w)
  case Nil
  then show ?case by simp
next
  case (Cons a sched)
  obtain p ev where a: "a = (p, ev)" by (cases a)
  show ?case
  proof (cases "monitor_step p ev w")
    case None
    then show ?thesis using Cons [of w] a by simp
  next
    case (Some w1)
    then show ?thesis
      using Cons [of w1] a monitor_step_preJoin [OF Some] by simp
  qed
qed

lemma Stop_preJoin: "Stop sched w = Some w1 \<Longrightarrow> preJoinChannels w1 = preJoinChannels w"
  by (auto simp: Stop_def unsafeStop_cases wg_Wait_preJoin cancel_frame
      split: option.splits if_splits)







section \<open>The registry over all runs\<close>

lemma exec_keeps_entry:
  assumes "channels w n = Some p" and "\<not> is_CallStop a" and "\<not> is_CallStart a"
  shows "channels (exec a w) n = Some p"
proof (cases a)
  case (CallStart sched par)
  then show ?thesis using assms by simp
next
  case (CallStop sched)
  then show ?thesis using assms by simp
next
  case (CallJoinChannel k)
  show ?thesis
  proof (cases "channels w k")
    case None
    then have "k \<noteq> n" using assms(1) by auto
    then show ?thesis
      using None assms(1) CallJoinChannel by (simp add: JoinChannel_absent unsafeAddChannel_eq)
  next
    case (Some q)
    then show ?thesis
      using assms(1) CallJoinChannel by (simp add: JoinChannel_present)
  qed
next
  case (CallHandleJoin k c)
  then show ?thesis
    using assms(1) by (simp add: HandleJoin_def split: option.splits prod.splits)
next
  case (CallHandleKick k c)
  then show ?thesis
    using assms(1) by (simp add: HandleKick_def split: option.splits prod.splits)
next
  case (Step q ev)
  then show ?thesis
    using assms(1) monitor_step_frame(4) [of q ev w]
    by (cases "monitor_step q ev w") simp_all
next
  case (ParentDone k e)
  then show ?thesis using assms(1) by (simp add: parent_done_def)
qed

lemma stop_progress_channels: "channels (stop_progress sched w) = channels w"
proof (cases "stopCtxCancel w")
  case None
  then show ?thesis by (simp add: stop_progress_def)
next
  case (Some x)
  then show ?thesis
    using wg_Wait_frame [of sched "cancel x w"] by (simp add: stop_progress_def cancel_frame)
qed

lemma exec_Stop_channels:
  "channels (exec (CallStop sched) w) =
     (if Stop sched w = None \<or> stopCtxCancel w = None then channels w else Map.empty)"
proof (cases "Stop sched w")
  case None
  then show ?thesis by (simp add: stop_progress_channels)
next
  case (Some w1)
  then show ?thesis
    by (auto simp: Stop_def unsafeStop_cases split: option.splits if_splits)
qed

lemma exec_Start_blocked:
  "Start sched par w = None \<Longrightarrow> channels (exec (CallStart sched par) w) = channels w"
  by (simp add: stop_progress_channels)

lemma exec_Start_first:
  assumes "Start sched par w \<noteq> None" and "stopCtxCancel w = None"
    and "n \<notin> Name ` set (preJoinChannels w)"
  shows "channels (exec (CallStart sched par) w) n = channels w n"
  using assms addChannels_channels_other [of n "preJoinChannels w"]
  by (simp add: Start_cases unsafeStop_cases)

lemma exec_Start_again:
  assumes "Start sched par w \<noteq> None" and "stopCtxCancel w \<noteq> None"
    and "m \<notin> Name ` set (preJoinChannels w)"
  shows "channels (exec (CallStart sched par) w) m = None"
proof -
  obtain x where x: "stopCtxCancel w = Some x" using assms(2) by auto
  define w1 where "w1 = (snd (wg_Wait sched (cancel x w)))\<lparr>channels := Map.empty\<rparr>"
  have u: "unsafeStop sched w = Some w1"
    using assms(1) x by (auto simp: Start_cases unsafeStop_cases w1_def split: if_splits)
  have pj: "preJoinChannels w1 = preJoinChannels w"
    using u Stop_preJoin [of sched w w1] by (simp add: Stop_def)
  have "channels w1 m = None" by (simp add: w1_def)
  then show ?thesis
    using u pj assms(3) addChannels_channels_other [of m "preJoinChannels w"]
    by (simp add: Start_cases)
qed

lemma step_panicked:
  assumes "monitor_step p ev w = Some w1" and "q < length (loops w)"
    and "pc (loops w ! q) = Panicked"
  shows "q < length (loops w1) \<and> pc (loops w1 ! q) = Panicked"
proof -
  have "q \<noteq> p"
    using step_stopped [of w q ev] assms(1,3) by auto
  then show ?thesis
    using monitor_step_frame(1) [OF assms(1)] monitor_step_frame(14) [OF assms(1), of q]
      assms(2,3) by simp
qed

lemma wg_Wait_panicked:
  "q < length (loops w) \<Longrightarrow> pc (loops w ! q) = Panicked \<Longrightarrow>
   q < length (loops (snd (wg_Wait sched w))) \<and>
   pc (loops (snd (wg_Wait sched w)) ! q) = Panicked"
proof (induction sched arbitrary: w)
  case Nil
  then show ?case by simp
next
  case (Cons a sched)
  obtain p ev where a: "a = (p, ev)" by (cases a)
  show ?case
  proof (cases "monitor_step p ev w")
    case None
    then show ?thesis using Cons a by simp
  next
    case (Some w1)
    have "q < length (loops w1) \<and> pc (loops w1 ! q) = Panicked"
      using step_panicked [OF Some Cons.prems] .
    then show ?thesis
      using Cons.IH [of w1] Cons.prems a Some by simp
  qed
qed

lemma stop_progress_panicked:
  assumes "q < length (loops w)" and "pc (loops w ! q) = Panicked"
  shows "q < length (loops (stop_progress sched w)) \<and>
    pc (loops (stop_progress sched w) ! q) = Panicked"
proof (cases "stopCtxCancel w")
  case None
  then show ?thesis using assms by (simp add: stop_progress_def)
next
  case (Some x)
  then show ?thesis
    using wg_Wait_panicked [of q "cancel x w" sched] assms
    by (simp add: stop_progress_def cancel_frame)
qed

lemma unsafeStop_panicked:
  assumes "unsafeStop sched w = Some w1" and "q < length (loops w)"
    and "pc (loops w ! q) = Panicked"
  shows "q < length (loops w1) \<and> pc (loops w1 ! q) = Panicked"
proof (cases "stopCtxCancel w")
  case None
  then show ?thesis using assms by (simp add: unsafeStop_cases)
next
  case (Some x)
  then have "w1 = (snd (wg_Wait sched (cancel x w)))\<lparr>channels := Map.empty\<rparr>"
    using assms(1) by (auto simp: unsafeStop_cases split: if_splits)
  then show ?thesis
    using wg_Wait_panicked [of q "cancel x w" sched] assms(2,3) by (simp add: cancel_frame)
qed

lemma handler_panicked:
  assumes "q < length (loops w)" and "pc (loops w ! q) = Panicked"
  shows "q < length (loops (HandleJoin k c w)) \<and> pc (loops (HandleJoin k c w) ! q) = Panicked"
    "q < length (loops (HandleKick k c w)) \<and> pc (loops (HandleKick k c w) ! q) = Panicked"
proof -
  show "q < length (loops (HandleJoin k c w)) \<and> pc (loops (HandleJoin k c w) ! q) = Panicked"
  proof (cases "k = nick w \<and> channels w c \<noteq> None")
    case True
    then obtain p where p: "channels w c = Some p" and k: "k = nick w" by auto
    show ?thesis
      unfolding k using HandleJoin_present [OF p] assms
      by (cases "q = p") (simp_all add: SetJoined_fields)
  next
    case False
    then show ?thesis using assms by (auto simp: HandleJoin_def)
  qed
  show "q < length (loops (HandleKick k c w)) \<and> pc (loops (HandleKick k c w) ! q) = Panicked"
  proof (cases "k = nick w \<and> channels w c \<noteq> None")
    case True
    then obtain p where p: "channels w c = Some p" and k: "k = nick w" by auto
    show ?thesis
      unfolding k using HandleKick_present [OF p] assms
      by (cases "q = p") (simp_all add: UnsetJoined_fields)
  next
    case False
    then show ?thesis using assms by (auto simp: HandleKick_def)
  qed
qed

lemma addChannels_panicked:
  assumes "q < length (loops w)" and "pc (loops w ! q) = Panicked"
  shows "q < length (loops (addChannels chs w)) \<and> pc (loops (addChannels chs w) ! q) = Panicked"
  using assms addChannels_old [of q w chs] addChannels_frame [of chs w] by simp

lemma exec_panicked:
  assumes "q < length (loops w)" and "pc (loops w ! q) = Panicked"
  shows "q < length (loops (exec a w)) \<and> pc (loops (exec a w) ! q) = Panicked"
proof (cases a)
  case (CallStart sched par)
  show ?thesis
  proof (cases "unsafeStop sched w")
    case None
    then show ?thesis
      using CallStart stop_progress_panicked [OF assms, of sched] by (simp add: Start_cases)
  next
    case (Some w1)
    have "q < length (loops w1) \<and> pc (loops w1 ! q) = Panicked"
      using unsafeStop_panicked [OF Some assms] .
    then show ?thesis
      using CallStart Some
        addChannels_panicked [of q "w1\<lparr>nextCtx := Suc (nextCtx w1),
          stopCtx := Some \<lparr>own = nextCtx w1, parent = par\<rparr>,
          stopCtxCancel := Some \<lparr>own = nextCtx w1, parent = par\<rparr>\<rparr>" "preJoinChannels w1"]
      by (simp add: Start_cases)
  qed
next
  case (CallStop sched)
  show ?thesis
  proof (cases "unsafeStop sched w")
    case None
    then show ?thesis
      using CallStop stop_progress_panicked [OF assms, of sched] by (simp add: Stop_def)
  next
    case (Some w1)
    then show ?thesis
      using CallStop unsafeStop_panicked [OF Some assms] by (simp add: Stop_def)
  qed
next
  case (CallJoinChannel k)
  show ?thesis
  proof (cases "channels w k")
    case None
    then show ?thesis
      using CallJoinChannel assms
      by (simp add: JoinChannel_absent unsafeAddChannel_eq nth_append)
  next
    case (Some p)
    then show ?thesis
      using CallJoinChannel assms by (simp add: JoinChannel_present)
  qed
next
  case (CallHandleJoin k c)
  then show ?thesis using handler_panicked(1) [OF assms] by simp
next
  case (CallHandleKick k c)
  then show ?thesis using handler_panicked(2) [OF assms] by simp
next
  case (Step p ev)
  show ?thesis
  proof (cases "monitor_step p ev w")
    case None
    then show ?thesis using Step assms by simp
  next
    case (Some w1)
    then show ?thesis using Step step_panicked [OF Some assms] by simp
  qed
next
  case (ParentDone k e)
  then show ?thesis using assms by (simp add: parent_done_def)
qed

lemma execs_panicked:
  "q < length (loops w) \<Longrightarrow> pc (loops w ! q) = Panicked \<Longrightarrow>
   q < length (loops (execs as w)) \<and> pc (loops (execs as w) ! q) = Panicked"
proof (induction as arbitrary: w)
  case Nil
  then show ?case by simp
next
  case (Cons a as)
  have "q < length (loops (exec a w)) \<and> pc (loops (exec a w) ! q) = Panicked"
    using exec_panicked [OF Cons.prems] .
  then show ?case using Cons.IH [of "exec a w"] by simp
qed

text \<open>A panic is for good: a process that is alive has been alive all along.\<close>

lemma alive_all_along:
  assumes "w = execs as (NewChannelReconciler config me pe)" and "alive (execs bs w)"
  shows "alive w"
proof (rule ccontr)
  assume n: "\<not> alive w"
  have "world_ok w" using assms(1) reachable_world_ok by simp
  then have "\<not> crashed (chn w)" by (simp add: world_ok_def signals_ok_def)
  then obtain q where q: "q < length (loops w)" "pc (loops w ! q) = Panicked"
    using n by (auto simp: alive_def list_all_length)
  have "q < length (loops (execs bs w)) \<and> pc (loops (execs bs w) ! q) = Panicked"
    using execs_panicked [OF q] .
  then show False
    using assms(2) by (auto simp: alive_def list_all_length)
qed

text \<open>
  Claim C8, as amended.  In every world reached from a new reconciler by \<open>Start\<close>,
  \<open>Stop\<close> and \<open>JoinChannel\<close> calls, with handler calls, goroutine steps and ends of
  parent contexts anywhere in between: a name of the registry maps to one channel state
  of the heap, a state of that very name; and as long as the process is alive (no
  goroutine has panicked), its goroutine runs, or it has returned and \<open>Err()\<close> of its
  context is \<open>Canceled\<close>.  The entry stays when the goroutine returns: no call or
  event other than \<open>Stop\<close> and \<open>Start\<close> removes or changes it.  \<open>Stop\<close> leaves the
  registry as it is while it is blocked and when the reconciler was never started, and
  empties it otherwise.  \<open>Start\<close> leaves the registry as it is while it is blocked; when
  it returns, a name that is not in the configured list keeps its entry on the first
  \<open>Start\<close> and has none on a later one.
\<close>

theorem registry_entries_started:
  assumes "w = execs as (NewChannelReconciler config me pe)" and "channels w n = Some p"
  shows "p < length (loops w) \<and> Name (channel (loops w ! p)) = n \<and>
    (alive w \<longrightarrow>
       running (pc (loops w ! p)) \<or>
       pc (loops w ! p) = Exited \<and>
         (\<exists>x. ctx (loops w ! p) = Some x \<and> ctx_Err w x = Some Canceled)) \<and>
    (\<not> is_CallStop a \<and> \<not> is_CallStart a \<longrightarrow> channels (exec a w) n = Some p) \<and>
    channels (exec (CallStop sched) w) =
      (if Stop sched w = None \<or> stopCtxCancel w = None then channels w else Map.empty) \<and>
    (Start sched par w = None \<longrightarrow> channels (exec (CallStart sched par) w) = channels w) \<and>
    (Start sched par w \<noteq> None \<and> stopCtxCancel w = None \<and>
       n \<notin> Name ` set (preJoinChannels w) \<longrightarrow>
       channels (exec (CallStart sched par) w) n = Some p) \<and>
    (Start sched par w \<noteq> None \<and> stopCtxCancel w \<noteq> None \<and>
       m \<notin> Name ` set (preJoinChannels w) \<longrightarrow>
       channels (exec (CallStart sched par) w) m = None)"
proof -
  have ok: "world_ok w"
    using assms(1) reachable_world_ok by simp
  have r: "p < length (loops w)" and nm: "Name (channel (loops w ! p)) = n"
    using ok assms(2) by (simp_all add: world_ok_def registry_ok_def)
  have t: "task_ok w (loops w ! p)"
    using ok r by (simp add: world_ok_def tasks_ok_def)
  have A: "alive w \<longrightarrow>
       running (pc (loops w ! p)) \<or>
       pc (loops w ! p) = Exited \<and>
         (\<exists>x. ctx (loops w ! p) = Some x \<and> ctx_Err w x = Some Canceled)"
  proof
    assume "alive w"
    then have "pc (loops w ! p) \<noteq> Panicked"
      using r by (simp add: alive_def list_all_length)
    then show "running (pc (loops w ! p)) \<or>
       pc (loops w ! p) = Exited \<and>
         (\<exists>x. ctx (loops w ! p) = Some x \<and> ctx_Err w x = Some Canceled)"
      using t by (cases "pc (loops w ! p)") (auto simp: task_ok_def split: option.splits)
  qed
  have B: "\<not> is_CallStop a \<and> \<not> is_CallStart a \<longrightarrow> channels (exec a w) n = Some p"
    using exec_keeps_entry [OF assms(2)] by blast
  have C: "channels (exec (CallStop sched) w) =
      (if Stop sched w = None \<or> stopCtxCancel w = None then channels w else Map.empty)"
    by (rule exec_Stop_channels)
  have D: "Start sched par w = None \<longrightarrow> channels (exec (CallStart sched par) w) = channels w"
    using exec_Start_blocked by blast
  have E: "Start sched par w \<noteq> None \<and> stopCtxCancel w = None \<and>
       n \<notin> Name ` set (preJoinChannels w) \<longrightarrow>
       channels (exec (CallStart sched par) w) n = Some p"
    using exec_Start_first [of sched par w n] assms(2) by simp
  have F: "Start sched par w \<noteq> None \<and> stopCtxCancel w \<noteq> None \<and>
       m \<notin> Name ` set (preJoinChannels w) \<longrightarrow>
       channels (exec (CallStart sched par) w) m = None"
    using exec_Start_again [of sched par w m] by blast
  show ?thesis by (intro conjI r nm A B C D E F)
qed

theorem registry_entries_started_witness:
  "channels rejoined_world ''#dev'' = Some 1 \<and> alive rejoined_world \<and>
   length (loops rejoined_world) = 2 \<and>
   Name (channel (loops rejoined_world ! 1)) = ''#dev'' \<and>
   pc (loops rejoined_world ! 1) = Exited \<and>
   ctx (loops rejoined_world ! 1) = Some \<lparr>own = 0, parent = 0\<rparr> \<and>
   ctx_Err rejoined_world \<lparr>own = 0, parent = 0\<rparr> = Some Canceled \<and>
   channels (exec (CallHandleJoin ''relay'' ''#dev'') rejoined_world) ''#dev'' = Some 1 \<and>
   channels (exec (Step 1 Run) rejoined_world) ''#dev'' = Some 1 \<and>
   Stop [] rejoined_world \<noteq> None \<and> stopCtxCancel rejoined_world \<noteq> None \<and>
   channels (exec (CallStop []) rejoined_world) = Map.empty \<and>
   Start [] 7 rejoined_world \<noteq> None \<and>
   ''#dev'' \<notin> Name ` set (preJoinChannels rejoined_world) \<and>
   channels (exec (CallStart [] 7) rejoined_world) ''#dev'' = None \<and>
   channels started_world ''#ops'' = Some 0 \<and> Start [] 7 started_world = None \<and>
   channels (exec (CallStart [] 7) started_world) ''#ops'' = Some 0 \<and>
   channels unstarted_world ''#dev'' = Some 0 \<and> stopCtxCancel unstarted_world = None \<and>
   Start [] 7 unstarted_world \<noteq> None \<and>
   ''#dev'' \<notin> Name ` set (preJoinChannels unstarted_world) \<and>
   channels (exec (CallStart [] 7) unstarted_world) ''#dev'' = Some 0"
proof -
  have c: "channels rejoined_world ''#dev'' = Some 1"
    by (simp add: rejoined_world_eq)
  note t = registry_entries_started [OF rejoined_world_reachable c, where sched = "[]" and par = 7
      and m = "''#dev''"]
  have f: "length (loops rejoined_world) = 2" "pc (loops rejoined_world ! 1) = Exited"
    "ctx (loops rejoined_world ! 1) = Some \<lparr>own = 0, parent = 0\<rparr>"
    "alive rejoined_world" "stopCtxCancel rejoined_world \<noteq> None"
    "''#dev'' \<notin> Name ` set (preJoinChannels rejoined_world)"
    by (simp_all add: rejoined_world_eq started_world_eq alive_def ops_channel_def)
  have g: "Stop [] rejoined_world \<noteq> None" "Start [] 7 rejoined_world \<noteq> None"
    by (simp_all add: Start_cases Stop_def unsafeStop_cases rejoined_world_eq started_world_eq
        cancel_def ctx_Err_def)
  have a1: "Name (channel (loops rejoined_world ! 1)) = ''#dev'' \<and>
      ctx_Err rejoined_world \<lparr>own = 0, parent = 0\<rparr> = Some Canceled"
    using t f by auto
  have a2: "channels (exec (CallHandleJoin ''relay'' ''#dev'') rejoined_world) ''#dev'' = Some 1"
    using t [of "CallHandleJoin ''relay'' ''#dev''"] by simp
  have a3: "channels (exec (Step 1 Run) rejoined_world) ''#dev'' = Some 1"
    using t [of "Step 1 Run"] by simp
  have a4: "channels (exec (CallStop []) rejoined_world) = Map.empty \<and>
      channels (exec (CallStart [] 7) rejoined_world) ''#dev'' = None"
    using t [of "Step 1 Run"] f g by simp
  have d: "channels started_world ''#ops'' = Some 0" "Start [] 7 started_world = None"
    by (simp_all add: Start_cases unsafeStop_cases started_world_eq cancel_def ctx_Err_def)
  have sr: "started_world =
      execs [CallStart [] 0] (NewChannelReconciler [ops_channel] ''relay'' (\<lambda>k. None))"
    by (simp add: started_world_def fresh_world_def del: exec.simps)
  note t1 = registry_entries_started [OF sr d(1), where sched = "[]" and par = 7]
  have b1: "channels (exec (CallStart [] 7) started_world) ''#ops'' = Some 0"
    using t1 [of "Step 0 Run" "''#ops''"] d by simp
  have u: "channels unstarted_world ''#dev'' = Some 0" "stopCtxCancel unstarted_world = None"
    "Start [] 7 unstarted_world \<noteq> None"
    "''#dev'' \<notin> Name ` set (preJoinChannels unstarted_world)"
    by (simp_all add: Start_cases unsafeStop_cases unstarted_world_eq ops_channel_def)
  have ur: "unstarted_world =
      execs [CallJoinChannel ''#dev''] (NewChannelReconciler [ops_channel] ''relay'' (\<lambda>k. None))"
    by (simp add: unstarted_world_def fresh_world_def)
  note t2 = registry_entries_started [OF ur u(1), where sched = "[]" and par = 7]
  have b2: "channels (exec (CallStart [] 7) unstarted_world) ''#dev'' = Some 0"
    using t2 [of "Step 0 Run" "''#ops''"] u by simp
  show ?thesis
    using c f g a1 a2 a3 a4 d b1 u b2 by simp
qed

text \<open>
  Claim C8 as stated fails: nothing removes an entry when its goroutine returns.  After
  \<open>Start\<close>, \<open>Stop\<close> and \<open>JoinChannel\<close>, the new goroutine sees the cancelled context at
  its first step and returns, and the registry still holds its entry.
\<close>

theorem registry_keeps_exited_task_counterexample:
  "rejoined_world =
     execs [CallStart [] 0, CallStop (drain_all 1), CallJoinChannel ''#dev'', Step 1 Run]
       (NewChannelReconciler [ops_channel] ''relay'' (\<lambda>k. None)) \<and>
   channels rejoined_world ''#dev'' = Some 1 \<and>
   pc (loops rejoined_world ! 1) = Exited \<and>
   \<not> running (pc (loops rejoined_world ! 1))"
proof (intro conjI)
  show "rejoined_world =
     execs [CallStart [] 0, CallStop (drain_all 1), CallJoinChannel ''#dev'', Step 1 Run]
       (NewChannelReconciler [ops_channel] ''relay'' (\<lambda>k. None))"
    by (rule rejoined_world_reachable)
qed (simp_all add: rejoined_world_eq)

end
